theory Spec2Isabelle
  imports Complex_Main "HOL-Library.AList"
begin

section \<open>Python floats\<close>

text \<open>
  A Python \<^verbatim>\<open>float\<close> is an IEEE 754 binary64 number.  It is modelled by the real number it
  denotes; every literal and every arithmetic operation rounds the exact result to the nearest
  number with a 53 bit significand, ties to the even significand.  The exponent is not bounded:
  the values of \<^verbatim>\<open>generate_network\<close> (reactances, loads of at most 500 per bus and their
  sums) stay far inside the normal range of binary64, where overflow and gradual underflow do
  not occur.
\<close>

text \<open>\<open>binade x\<close> is the exponent \<open>e\<close> with \<open>2\<^sup>e \<le> x < 2\<^sup>e\<^sup>+\<^sup>1\<close> of a positive \<open>x\<close>.\<close>

function binade :: "real \<Rightarrow> int" where
  "binade x = (if x \<le> 0 then 0
               else if x < 1 then binade (2 * x) - 1
               else if 2 \<le> x then binade (x / 2) + 1
               else 0)"
  by pat_completeness auto
termination
proof (relation "measure (\<lambda>x. if x < 1 then nat \<lceil>1 / x\<rceil> else nat \<lfloor>x\<rfloor>)")
  show "wf (measure (\<lambda>x::real. if x < 1 then nat \<lceil>1 / x\<rceil> else nat \<lfloor>x\<rfloor>))"
    by simp
next
  fix x :: real
  assume a: "\<not> x \<le> 0" "x < 1"
  show "(2 * x, x) \<in> measure (\<lambda>x. if x < 1 then nat \<lceil>1 / x\<rceil> else nat \<lfloor>x\<rfloor>)"
  proof (cases "2 * x < 1")
    case True
    then have "2 < 1 / x" using a by (simp add: field_simps)
    then have "1 / (2 * x) \<le> 1 / x - 1" by (simp add: field_simps)
    then have "\<lceil>1 / (2 * x)\<rceil> \<le> \<lceil>1 / x - 1\<rceil>" by (rule ceiling_mono)
    then have "\<lceil>1 / (2 * x)\<rceil> < \<lceil>1 / x\<rceil>" by simp
    moreover have "0 < \<lceil>1 / x\<rceil>" using a by simp
    ultimately show ?thesis using True a by simp
  next
    case False
    then have "1 \<le> 2 * x" "2 * x < 2" using a by simp_all
    then have f: "\<lfloor>2 * x\<rfloor> = 1" by linarith
    have "1 < 1 / x" using a by (simp add: field_simps)
    then have "1 < \<lceil>1 / x\<rceil>" by linarith
    then show ?thesis using False a f by simp
  qed
next
  fix x :: real
  assume a: "\<not> x \<le> 0" "\<not> x < 1" "2 \<le> x"
  have "x / 2 \<le> x - 1" using a by simp
  then have "\<lfloor>x / 2\<rfloor> \<le> \<lfloor>x - 1\<rfloor>" by (rule floor_mono)
  then have "\<lfloor>x / 2\<rfloor> < \<lfloor>x\<rfloor>" by simp
  moreover have "0 < \<lfloor>x\<rfloor>" using a by simp
  ultimately show "(x / 2, x) \<in> measure (\<lambda>x. if x < 1 then nat \<lceil>1 / x\<rceil> else nat \<lfloor>x\<rfloor>)"
    using a by simp
qed

definition round_half_even :: "real \<Rightarrow> int" where
  "round_half_even y =
     (let f = \<lfloor>y\<rfloor>; d = y - of_int f
      in if d < 1 / 2 then f else if 1 / 2 < d then f + 1 else if even f then f else f + 1)"

definition round_double :: "real \<Rightarrow> real" where
  "round_double x =
     (let e = binade \<bar>x\<bar> - 52
      in of_int (round_half_even (x / 2 powi e)) * 2 powi e)"

text \<open>A float literal of the source, \<^verbatim>\<open>x + y\<close> and \<^verbatim>\<open>x * y\<close> on floats.\<close>

definition lit :: "real \<Rightarrow> real" where
  "lit x = round_double x"

definition fadd :: "real \<Rightarrow> real \<Rightarrow> real" where
  "fadd x y = round_double (x + y)"

definition fmul :: "real \<Rightarrow> real \<Rightarrow> real" where
  "fmul x y = round_double (x * y)"

text \<open>\<^verbatim>\<open>x - y\<close> and \<^verbatim>\<open>x / y\<close> on floats.\<close>

definition fsub :: "real \<Rightarrow> real \<Rightarrow> real" where
  "fsub x y = round_double (x - y)"

definition fdiv :: "real \<Rightarrow> real \<Rightarrow> real" where
  "fdiv x y = round_double (x / y)"

section \<open>The random generator of numpy\<close>

text \<open>
  \<^verbatim>\<open>numpy\<close> is not part of the repository: the three entry points that
  \<^verbatim>\<open>generate_network\<close> calls are parameters of the model, over any type \<open>'s\<close> of generator
  states.  \<^verbatim>\<open>np.random.default_rng(seed)\<close> builds a new generator object,
  \<^verbatim>\<open>rng.random()\<close> and \<^verbatim>\<open>rng.integers(low, high)\<close> draw from it and advance its state.
\<close>

datatype error = ValueError | StatisticsError | KeyError

record 's numpy =
  default_rng :: "int \<Rightarrow> error + 's"
  rng_random :: "'s \<Rightarrow> real \<times> 's"
  rng_integers :: "'s \<Rightarrow> int \<Rightarrow> int \<Rightarrow> error + int \<times> 's"

text \<open>
  What numpy documents of them: a seed must be a non-negative integer; \<^verbatim>\<open>random()\<close> is a
  float of the half-open interval \<open>[0, 1)\<close>; \<^verbatim>\<open>integers(low, high)\<close> is an integer of
  \<open>[low, high)\<close> and raises \<^verbatim>\<open>ValueError\<close> (\<^verbatim>\<open>low >= high\<close>) when that interval is empty.
  The bound of the \<^verbatim>\<open>int64\<close> result type (\<open>2\<^sup>6\<^sup>3\<close>) is left out: no list that the loops
  before the first draw build can be that long.
\<close>

definition numpy_spec :: "'s numpy \<Rightarrow> bool" where
  "numpy_spec G \<longleftrightarrow>
     (\<forall>seed. (0 \<le> seed \<longrightarrow> (\<exists>rng. default_rng G seed = Inr rng)) \<and>
             (seed < 0 \<longrightarrow> default_rng G seed = Inl ValueError)) \<and>
     (\<forall>rng. 0 \<le> fst (rng_random G rng) \<and> fst (rng_random G rng) < 1) \<and>
     (\<forall>rng low high.
        (low < high \<longrightarrow>
           (\<exists>k rng'. rng_integers G rng low high = Inr (k, rng') \<and> low \<le> k \<and> k < high)) \<and>
        (high \<le> low \<longrightarrow> rng_integers G rng low high = Inl ValueError))"

text \<open>
  A small generator that meets \<open>numpy_spec\<close>, to run the model on: its state is a counter,
  the \<open>k\<close>-th draw is \<open>(k mod 10) / 10\<close>, respectively \<open>low + k mod (high - low)\<close>.
\<close>

definition counter_rng :: "nat numpy" where
  "counter_rng =
     \<lparr> default_rng = (\<lambda>seed. if seed < 0 then Inl ValueError else Inr (nat seed)),
       rng_random = (\<lambda>k. (real (k mod 10) / 10, Suc k)),
       rng_integers = (\<lambda>k low high.
          if low < high then Inr (low + int k mod (high - low), Suc k) else Inl ValueError) \<rparr>"

section \<open>generate\_network\<close>

type_synonym line = "int \<times> int \<times> real"

text \<open>
  A Python \<^verbatim>\<open>dict\<close> keeps its keys in insertion order: an association list, where
  \<^verbatim>\<open>d[k] = v\<close> is \<^const>\<open>AList.update\<close> (overwrite in place, or append) and
  \<^verbatim>\<open>d.get(k, default)\<close> is \<open>dict_get\<close>.
\<close>

type_synonym dict = "(int \<times> real) list"

type_synonym network = "int \<times> line list \<times> dict \<times> dict"

definition dict_get :: "dict \<Rightarrow> int \<Rightarrow> real \<Rightarrow> real" where
  "dict_get d k dflt = (case map_of d k of None \<Rightarrow> dflt | Some v \<Rightarrow> v)"

text \<open>\<^verbatim>\<open>range(start, stop, step)\<close> for a positive step.\<close>

function range_step :: "int \<Rightarrow> int \<Rightarrow> int \<Rightarrow> int list" where
  "range_step start stop step =
     (if 0 < step \<and> start < stop then start # range_step (start + step) stop step else [])"
  by pat_completeness auto
termination
  by (relation "measure (\<lambda>(start, stop, step). nat (stop - start))") auto

text \<open>\<^verbatim>\<open>for i in range(1, n_buses)\<close>: the spanning tree.\<close>

fun spanning_tree_loop :: "'s numpy \<Rightarrow> int list \<Rightarrow> line list \<Rightarrow> 's \<Rightarrow> line list \<times> 's" where
  "spanning_tree_loop G [] lines rng = (lines, rng)"
| "spanning_tree_loop G (i # rest) lines rng =
     (case rng_random G rng of (r, rng1) \<Rightarrow>
        let x = fadd (lit 0.05) (fmul r (lit 0.45))
        in spanning_tree_loop G rest (lines @ [(i, i + 1, x)]) rng1)"

text \<open>
  \<^verbatim>\<open>for _ in range(max(1, n_buses // 3))\<close>: the extra edges.  A \<^verbatim>\<open>ValueError\<close> of
  \<^verbatim>\<open>rng.integers\<close> leaves the loop and the function; the generator keeps the state it had
  before the call that raised.
\<close>

fun extra_edges_loop ::
  "'s numpy \<Rightarrow> int \<Rightarrow> nat \<Rightarrow> line list \<Rightarrow> 's \<Rightarrow> (error + line list) \<times> 's" where
  "extra_edges_loop G n_buses 0 lines rng = (Inr lines, rng)"
| "extra_edges_loop G n_buses (Suc k) lines rng =
     (case rng_integers G rng 1 n_buses of
        Inl e \<Rightarrow> (Inl e, rng)
      | Inr (u, rng1) \<Rightarrow>
          (case rng_integers G rng1 (u + 1) (n_buses + 1) of
             Inl e \<Rightarrow> (Inl e, rng1)
           | Inr (v, rng2) \<Rightarrow>
               (case rng_random G rng2 of (r, rng3) \<Rightarrow>
                  let x = fadd (lit 0.05) (fmul r (lit 0.45))
                  in extra_edges_loop G n_buses k (lines @ [(u, v, x)]) rng3)))"

text \<open>\<^verbatim>\<open>for bus in range(2, n_buses + 1)\<close>: the loads, with their running total.\<close>

fun loads_loop :: "'s numpy \<Rightarrow> int list \<Rightarrow> dict \<times> real \<Rightarrow> 's \<Rightarrow> (dict \<times> real) \<times> 's" where
  "loads_loop G [] (loads, total_load) rng = ((loads, total_load), rng)"
| "loads_loop G (bus # rest) (loads, total_load) rng =
     (case rng_random G rng of (r, rng1) \<Rightarrow>
        if lit 0.3 < r then
          (case rng_random G rng1 of (r', rng2) \<Rightarrow>
             let p = fadd (lit 50) (fmul r' (lit 450))
             in loads_loop G rest (AList.update bus p loads, fadd total_load p) rng2)
        else loads_loop G rest (loads, total_load) rng1)"

text \<open>\<^verbatim>\<open>for bus in range(2, n_buses + 1, 4)\<close>: the generators beside the one of bus 1.\<close>

fun generators_loop :: "int list \<Rightarrow> dict \<Rightarrow> dict \<Rightarrow> dict" where
  "generators_loop [] loads generators = generators"
| "generators_loop (bus # rest) loads generators =
     generators_loop rest loads
       (AList.update bus (fadd (fmul (dict_get loads bus (lit 0)) (lit 0.5)) (lit 50)) generators)"

text \<open>
  The function itself.  The generator objects that exist when it is called (numpy's global one
  among them) are the list \<open>objs\<close>; \<^verbatim>\<open>default_rng\<close> adds a new object, the only one the
  function draws from, and the function returns its result (or the error raised) together
  with the objects as it leaves them.
\<close>

definition generate_network ::
  "'s numpy \<Rightarrow> int \<Rightarrow> int \<Rightarrow> 's list \<Rightarrow> (error + network) \<times> 's list" where
  "generate_network G n_buses seed objs =
     (case default_rng G seed of
        Inl e \<Rightarrow> (Inl e, objs)
      | Inr rng0 \<Rightarrow>
          (case spanning_tree_loop G [1..n_buses - 1] [] rng0 of (lines1, rng1) \<Rightarrow>
             (case extra_edges_loop G n_buses (nat (max 1 (n_buses div 3))) lines1 rng1 of
                (Inl e, rng2) \<Rightarrow> (Inl e, objs @ [rng2])
              | (Inr lines, rng2) \<Rightarrow>
                  (case loads_loop G [2..n_buses] ([], lit 0) rng2 of
                     ((loads0, total0), rng3) \<Rightarrow>
                       let (loads, total_load) =
                             (if loads0 = [] then (AList.update 2 (lit 200) loads0, lit 200)
                              else (loads0, total0));
                           generators =
                             generators_loop (range_step 2 (n_buses + 1) 4) loads
                               [(1, fmul total_load (lit 1.1))]
                       in (Inr (n_buses, lines, generators, loads), objs @ [rng3])))))"

section \<open>generate\_network among the objects of the interpreter\<close>

text \<open>
  The same function once more, with what a call of it can reach made explicit.  The Python
  variable \<^verbatim>\<open>rng\<close> holds a reference \<open>'r\<close> to a generator object, and every call into numpy
  takes the whole state \<open>'w\<close> of the interpreter (its heap, numpy's global generator included)
  and returns the state it leaves.  Nothing in these types keeps a call from changing any
  object, or the function from drawing from a generator that is not its own.
\<close>

record ('w, 'r) numpy_calls =
  call_default_rng :: "int \<Rightarrow> 'w \<Rightarrow> (error + 'r) \<times> 'w"
  call_random :: "'r \<Rightarrow> 'w \<Rightarrow> real \<times> 'w"
  call_integers :: "'r \<Rightarrow> int \<Rightarrow> int \<Rightarrow> 'w \<Rightarrow> (error + int) \<times> 'w"

text \<open>
  What numpy documents of generator objects, for a view \<open>view w r\<close> of the state of the object
  that \<open>r\<close> refers to in \<open>w\<close> (\<open>None\<close> when there is no such object): \<^verbatim>\<open>default_rng\<close> makes
  an object that did not exist, in the state that the seed gives; a method of a generator draws
  from the state of that generator and advances it; and no call changes another generator.
  The draws themselves are those of \<open>G\<close>.
\<close>

definition numpy_objects ::
  "('w, 'r) numpy_calls \<Rightarrow> 's numpy \<Rightarrow> ('w \<Rightarrow> 'r \<Rightarrow> 's option) \<Rightarrow> bool" where
  "numpy_objects W G view \<longleftrightarrow>
     (\<forall>seed w e. default_rng G seed = Inl e \<longrightarrow>
        (\<exists>w'. call_default_rng W seed w = (Inl e, w') \<and> view w' = view w)) \<and>
     (\<forall>seed w s. default_rng G seed = Inr s \<longrightarrow>
        (\<exists>r w'. call_default_rng W seed w = (Inr r, w') \<and>
           view w r = None \<and> view w' = (view w)(r \<mapsto> s))) \<and>
     (\<forall>r w s x s'. view w r = Some s \<and> rng_random G s = (x, s') \<longrightarrow>
        (\<exists>w'. call_random W r w = (x, w') \<and> view w' = (view w)(r \<mapsto> s'))) \<and>
     (\<forall>r w s low high e. view w r = Some s \<and> rng_integers G s low high = Inl e \<longrightarrow>
        (\<exists>w'. call_integers W r low high w = (Inl e, w') \<and> view w' = view w)) \<and>
     (\<forall>r w s low high k s'. view w r = Some s \<and> rng_integers G s low high = Inr (k, s') \<longrightarrow>
        (\<exists>w'. call_integers W r low high w = (Inr k, w') \<and>
           view w' = (view w)(r \<mapsto> s')))"

text \<open>The three loops that draw, and the function, as above but on the reference.\<close>

fun spanning_tree_loop_in ::
  "('w, 'r) numpy_calls \<Rightarrow> 'r \<Rightarrow> int list \<Rightarrow> line list \<Rightarrow> 'w \<Rightarrow> line list \<times> 'w" where
  "spanning_tree_loop_in W rng [] lines w = (lines, w)"
| "spanning_tree_loop_in W rng (i # rest) lines w =
     (case call_random W rng w of (r, w1) \<Rightarrow>
        let x = fadd (lit 0.05) (fmul r (lit 0.45))
        in spanning_tree_loop_in W rng rest (lines @ [(i, i + 1, x)]) w1)"

fun extra_edges_loop_in ::
  "('w, 'r) numpy_calls \<Rightarrow> 'r \<Rightarrow> int \<Rightarrow> nat \<Rightarrow> line list \<Rightarrow> 'w \<Rightarrow> (error + line list) \<times> 'w"
  where
  "extra_edges_loop_in W rng n_buses 0 lines w = (Inr lines, w)"
| "extra_edges_loop_in W rng n_buses (Suc k) lines w =
     (case call_integers W rng 1 n_buses w of
        (Inl e, w1) \<Rightarrow> (Inl e, w1)
      | (Inr u, w1) \<Rightarrow>
          (case call_integers W rng (u + 1) (n_buses + 1) w1 of
             (Inl e, w2) \<Rightarrow> (Inl e, w2)
           | (Inr v, w2) \<Rightarrow>
               (case call_random W rng w2 of (r, w3) \<Rightarrow>
                  let x = fadd (lit 0.05) (fmul r (lit 0.45))
                  in extra_edges_loop_in W rng n_buses k (lines @ [(u, v, x)]) w3)))"

fun loads_loop_in ::
  "('w, 'r) numpy_calls \<Rightarrow> 'r \<Rightarrow> int list \<Rightarrow> dict \<times> real \<Rightarrow> 'w \<Rightarrow> (dict \<times> real) \<times> 'w" where
  "loads_loop_in W rng [] (loads, total_load) w = ((loads, total_load), w)"
| "loads_loop_in W rng (bus # rest) (loads, total_load) w =
     (case call_random W rng w of (r, w1) \<Rightarrow>
        if lit 0.3 < r then
          (case call_random W rng w1 of (r', w2) \<Rightarrow>
             let p = fadd (lit 50) (fmul r' (lit 450))
             in loads_loop_in W rng rest (AList.update bus p loads, fadd total_load p) w2)
        else loads_loop_in W rng rest (loads, total_load) w1)"

definition generate_network_in ::
  "('w, 'r) numpy_calls \<Rightarrow> int \<Rightarrow> int \<Rightarrow> 'w \<Rightarrow> (error + network) \<times> 'w" where
  "generate_network_in W n_buses seed w =
     (case call_default_rng W seed w of
        (Inl e, w0) \<Rightarrow> (Inl e, w0)
      | (Inr rng, w0) \<Rightarrow>
          (case spanning_tree_loop_in W rng [1..n_buses - 1] [] w0 of (lines1, w1) \<Rightarrow>
             (case extra_edges_loop_in W rng n_buses (nat (max 1 (n_buses div 3))) lines1 w1 of
                (Inl e, w2) \<Rightarrow> (Inl e, w2)
              | (Inr lines, w2) \<Rightarrow>
                  (case loads_loop_in W rng [2..n_buses] ([], lit 0) w2 of
                     ((loads0, total0), w3) \<Rightarrow>
                       let (loads, total_load) =
                             (if loads0 = [] then (AList.update 2 (lit 200) loads0, lit 200)
                              else (loads0, total0));
                           generators =
                             generators_loop (range_step 2 (n_buses + 1) 4) loads
                               [(1, fmul total_load (lit 1.1))]
                       in (Inr (n_buses, lines, generators, loads), w3)))))"

text \<open>
  An interpreter to run this on: its heap is the list of the generator states, a reference is
  an index into it, and a new object goes to the end.
\<close>

definition heap_calls :: "'s numpy \<Rightarrow> ('s list, nat) numpy_calls" where
  "heap_calls G =
     \<lparr> call_default_rng = (\<lambda>seed heap.
          case default_rng G seed of
            Inl e \<Rightarrow> (Inl e, heap)
          | Inr s \<Rightarrow> (Inr (length heap), heap @ [s])),
       call_random = (\<lambda>r heap.
          case rng_random G (heap ! r) of (x, s) \<Rightarrow> (x, heap[r := s])),
       call_integers = (\<lambda>r low high heap.
          case rng_integers G (heap ! r) low high of
            Inl e \<Rightarrow> (Inl e, heap)
          | Inr (k, s) \<Rightarrow> (Inr k, heap[r := s])) \<rparr>"

definition heap_view :: "'s list \<Rightarrow> nat \<Rightarrow> 's option" where
  "heap_view heap r = (if r < length heap then Some (heap ! r) else None)"

section \<open>The benchmark script\<close>

text \<open>
  The statements of \<^verbatim>\<open>benchmark.py\<close> after its functions.  What the script gets from
  outside is a parameter: \<open>clock k\<close> is the \<open>k\<close>-th reading of \<^verbatim>\<open>time.perf_counter()\<close> that
  it takes, and the state of the script carries the number of readings taken so far.  The calls
  into PyPSA (\<^verbatim>\<open>build_pypsa_network\<close>, \<^verbatim>\<open>net.lpf()\<close>, \<^verbatim>\<open>net.optimize\<close>) are taken to return:
  what they compute does not reach the file, and a failure of the solver would end the script
  before it writes anything.
\<close>

definition perf_counter :: "(nat \<Rightarrow> real) \<Rightarrow> nat \<Rightarrow> real \<times> nat" where
  "perf_counter clock k = (clock k, Suc k)"

text \<open>
  \<^verbatim>\<open>statistics.median\<close> and \<^verbatim>\<open>min\<close> of the standard library: the median of the sorted
  data is its middle element, or the mean of the two middle elements; both functions raise on
  an empty list.
\<close>

definition median_sorted :: "real list \<Rightarrow> real" where
  "median_sorted data =
     (let n = length data
      in if n mod 2 = 1 then data ! (n div 2)
         else let i = n div 2 in fdiv (fadd (data ! (i - 1)) (data ! i)) 2)"

definition median :: "real list \<Rightarrow> error + real" where
  "median xs =
     (let data = sort xs
      in if length data = 0 then Inl StatisticsError else Inr (median_sorted data))"

definition py_min :: "real list \<Rightarrow> error + real" where
  "py_min xs = (if xs = [] then Inl ValueError else Inr (min_list xs))"

text \<open>
  \<^verbatim>\<open>time_median(func, n_runs)\<close>: each run reads the clock before and after \<^verbatim>\<open>func()\<close>
  and appends the difference to \<^verbatim>\<open>times\<close>.
\<close>

fun time_median_loop :: "(nat \<Rightarrow> real) \<Rightarrow> nat \<Rightarrow> real list \<Rightarrow> nat \<Rightarrow> real list \<times> nat" where
  "time_median_loop clock 0 timings k = (timings, k)"
| "time_median_loop clock (Suc runs) timings k =
     (case perf_counter clock k of (t0, k1) \<Rightarrow>
        (case perf_counter clock k1 of (t1, k2) \<Rightarrow>
           time_median_loop clock runs (timings @ [fsub t1 t0]) k2))"

definition time_median :: "(nat \<Rightarrow> real) \<Rightarrow> int \<Rightarrow> nat \<Rightarrow> (error + real \<times> real) \<times> nat" where
  "time_median clock n_runs k =
     (case time_median_loop clock (nat n_runs) [] k of (timings, k') \<Rightarrow>
        (case median timings of
           Inl e \<Rightarrow> (Inl e, k')
         | Inr med \<Rightarrow>
             (case py_min timings of
                Inl e \<Rightarrow> (Inl e, k')
              | Inr mn \<Rightarrow> (Inr (med, mn), k'))))"

definition DC_SIZES :: "int list" where
  "DC_SIZES = [3, 10, 50, 100, 500, 1000, 2000]"

definition LOPF_SIZES :: "int list" where
  "LOPF_SIZES = [3, 10, 50, 100, 500]"

text \<open>The number of runs per size, of the DC loop and of the LOPF loop.\<close>

definition dc_n_runs :: "int \<Rightarrow> int" where
  "dc_n_runs n = (if n \<le> 100 then 50 else if n \<le> 500 then 10 else 3)"

definition lopf_n_runs :: "int \<Rightarrow> int" where
  "lopf_n_runs n = (if n \<le> 50 then 10 else if n \<le> 100 then 5 else 3)"

text \<open>
  \<^verbatim>\<open>for n in DC_SIZES\<close> and \<^verbatim>\<open>for n in LOPF_SIZES\<close>: the two loops differ in the number of
  runs and in what they time; each generates the network of size \<open>n\<close> at seed 42, takes the
  median of its runs and stores \<^verbatim>\<open>med * 1000\<close> under the key \<open>n\<close>.
\<close>

fun benchmark_loop ::
  "'s numpy \<Rightarrow> (nat \<Rightarrow> real) \<Rightarrow> (int \<Rightarrow> int) \<Rightarrow> int list \<Rightarrow> dict \<Rightarrow> nat \<times> 's list \<Rightarrow>
     (error + dict) \<times> nat \<times> 's list" where
  "benchmark_loop G clock runs_of [] results w = (Inr results, w)"
| "benchmark_loop G clock runs_of (n # rest) results (k, objs) =
     (case generate_network G n 42 objs of
        (Inl e, objs1) \<Rightarrow> (Inl e, k, objs1)
      | (Inr (n_buses, lines, generators, loads), objs1) \<Rightarrow>
          (case time_median clock (runs_of n) k of
             (Inl e, k1) \<Rightarrow> (Inl e, k1, objs1)
           | (Inr (med, mn), k1) \<Rightarrow>
               benchmark_loop G clock runs_of rest
                 (AList.update n (fmul med 1000) results) (k1, objs1)))"

text \<open>
  The rows that \<^verbatim>\<open>csv.writer\<close> is given, cell by cell (how a float is printed is not
  modelled); \<^verbatim>\<open>results[n]\<close> raises \<^verbatim>\<open>KeyError\<close> for a missing key.
\<close>

datatype cell = Text string | Whole int | Number real

fun write_rows :: "string \<Rightarrow> int list \<Rightarrow> dict \<Rightarrow> cell list list \<Rightarrow> error + cell list list" where
  "write_rows name [] results rows = Inr rows"
| "write_rows name (n # rest) results rows =
     (case map_of results n of
        None \<Rightarrow> Inl KeyError
      | Some t \<Rightarrow> write_rows name rest results (rows @ [[Text name, Whole n, Number t]]))"

text \<open>The script: both loops, then the rows of \<^verbatim>\<open>results/python_benchmark.csv\<close>.\<close>

definition benchmark :: "'s numpy \<Rightarrow> (nat \<Rightarrow> real) \<Rightarrow> 's list \<Rightarrow> error + cell list list" where
  "benchmark G clock objs =
     (case benchmark_loop G clock dc_n_runs DC_SIZES [] (0, objs) of
        (Inl e, w) \<Rightarrow> Inl e
      | (Inr dc_results, w) \<Rightarrow>
          (case benchmark_loop G clock lopf_n_runs LOPF_SIZES [] w of
             (Inl e, w') \<Rightarrow> Inl e
           | (Inr lopf_results, w') \<Rightarrow>
               (case write_rows ''DC_PF'' DC_SIZES dc_results
                       [[Text ''module'', Text ''n_buses'', Text ''time_ms'']] of
                  Inl e \<Rightarrow> Inl e
                | Inr rows \<Rightarrow> write_rows ''LOPF'' LOPF_SIZES lopf_results rows)))"

section \<open>Notions the properties are stated with\<close>

text \<open>The two buses of a line.\<close>

definition ends :: "line \<Rightarrow> int \<times> int" where
  "ends l = (fst l, fst (snd l))"

text \<open>A line of a network of \<open>n\<close> buses runs from a bus to a higher one.\<close>

definition line_ok :: "int \<Rightarrow> line \<Rightarrow> bool" where
  "line_ok n l \<longleftrightarrow> 1 \<le> fst l \<and> fst l < fst (snd l) \<and> fst (snd l) \<le> n"

text \<open>
  Two buses are linked when a line joins them, in either direction; a line list connects the
  buses \<open>1..n\<close> when every two of them are joined by a chain of lines.
\<close>

definition linked :: "line list \<Rightarrow> (int \<times> int) set" where
  "linked lines = {(a, b). (a, b) \<in> ends ` set lines \<or> (b, a) \<in> ends ` set lines}"

definition connects_buses :: "int \<Rightarrow> line list \<Rightarrow> bool" where
  "connects_buses n lines \<longleftrightarrow> (\<forall>a \<in> {1..n}. \<forall>b \<in> {1..n}. (a, b) \<in> (linked lines)\<^sup>*)"

text \<open>
  The sum of the values of a dict as Python accumulates it: from \<^verbatim>\<open>0.0\<close>, in the order
  of the keys, each addition rounded.
\<close>

definition total_of :: "dict \<Rightarrow> real" where
  "total_of d = foldl fadd (lit 0) (map snd d)"

text \<open>The loads the load pass can draw: \<^verbatim>\<open>50.0 + r * 450.0\<close> for a draw \<open>r\<close> of \<open>[0, 1)\<close>.\<close>

definition load_value :: "real \<Rightarrow> bool" where
  "load_value p \<longleftrightarrow> (\<exists>r. 0 \<le> r \<and> r < 1 \<and> p = fadd (lit 50) (fmul r (lit 450)))"

text \<open>
  The times measured by \<open>runs\<close> runs that start at reading \<open>k\<close> of the clock, the time in
  milliseconds that the script derives from such a list, and the results of a loop over
  \<open>sizes\<close> that starts at reading \<open>k\<close>.
\<close>

fun measured :: "(nat \<Rightarrow> real) \<Rightarrow> nat \<Rightarrow> nat \<Rightarrow> real list" where
  "measured clock k 0 = []"
| "measured clock k (Suc runs) = fsub (clock (Suc k)) (clock k) # measured clock (k + 2) runs"

definition median_ms :: "real list \<Rightarrow> real" where
  "median_ms timings = fmul (median_sorted (sort timings)) 1000"

fun expected_results :: "(nat \<Rightarrow> real) \<Rightarrow> (int \<Rightarrow> int) \<Rightarrow> int list \<Rightarrow> dict \<Rightarrow> nat \<Rightarrow> dict \<times> nat" where
  "expected_results clock runs_of [] results k = (results, k)"
| "expected_results clock runs_of (n # rest) results k =
     expected_results clock runs_of rest
       (AList.update n (median_ms (measured clock k (nat (runs_of n)))) results)
       (k + 2 * nat (runs_of n))"

section \<open>Rounding\<close>

declare binade.simps [simp del] range_step.simps [simp del]

lemma two_powi_succ: "(2::real) powi (k + 1) = 2 * 2 powi k"
  by (simp add: power_int_add_1')

lemma two_powi_pred: "(2::real) powi (k - 1) = 2 powi k / 2"
  by (simp add: power_int_diff)

lemma binade_bounds:
  "0 < x \<Longrightarrow> 2 powi (binade x) \<le> x \<and> x < 2 powi (binade x + 1)"
proof (induction x rule: binade.induct)
  case (1 x)
  show ?case
  proof (cases "x < 1")
    case True
    with "1.prems" have b: "binade x = binade (2 * x) - 1"
      by (subst binade.simps) simp
    from "1.IH"(1) True "1.prems"
    have "2 powi (binade (2 * x)) \<le> 2 * x \<and> 2 * x < 2 powi (binade (2 * x) + 1)"
      by simp
    moreover have "(2::real) powi (binade (2 * x) - 1 + 1) = 2 powi (binade (2 * x))"
      by simp
    moreover have "(2::real) powi (binade (2 * x) - 1) = 2 powi (binade (2 * x)) / 2"
      by (rule two_powi_pred)
    moreover have "(2::real) powi (binade (2 * x) + 1) = 2 * 2 powi (binade (2 * x))"
      by (rule two_powi_succ)
    ultimately show ?thesis
      unfolding b by linarith
  next
    case False
    show ?thesis
    proof (cases "2 \<le> x")
      case True
      with False "1.prems" have b: "binade x = binade (x / 2) + 1"
        by (subst binade.simps) simp
      from "1.IH"(2) True False "1.prems"
      have "2 powi (binade (x / 2)) \<le> x / 2 \<and> x / 2 < 2 powi (binade (x / 2) + 1)"
        by simp
      moreover have "(2::real) powi (binade (x / 2) + 1 + 1) = 2 * 2 powi (binade (x / 2) + 1)"
        by (rule two_powi_succ)
      moreover have "(2::real) powi (binade (x / 2) + 1) = 2 * 2 powi (binade (x / 2))"
        by (rule two_powi_succ)
      ultimately show ?thesis
        unfolding b by linarith
    next
      case F2: False
      with False "1.prems" have b: "binade x = 0"
        by (subst binade.simps) simp
      show ?thesis
        unfolding b using False F2 by simp
    qed
  qed
qed

lemma binade_unique:
  assumes "2 powi k \<le> x" "x < 2 powi (k + 1)"
  shows "binade x = k"
proof -
  have pos: "0 < x"
    using assms(1) zero_less_power_int [of "2::real" k] by linarith
  note b = binade_bounds [OF pos]
  have "\<not> binade x < k"
  proof
    assume "binade x < k"
    then have "(2::real) powi (binade x + 1) \<le> 2 powi k"
      by (intro power_int_increasing) simp_all
    with b assms show False by linarith
  qed
  moreover have "\<not> k < binade x"
  proof
    assume "k < binade x"
    then have "(2::real) powi (k + 1) \<le> 2 powi (binade x)"
      by (intro power_int_increasing) simp_all
    with b assms show False by linarith
  qed
  ultimately show ?thesis by linarith
qed

lemma binade_mono: "0 < x \<Longrightarrow> x \<le> y \<Longrightarrow> binade x \<le> binade y"
proof (rule ccontr)
  assume x: "0 < x" "x \<le> y" and "\<not> binade x \<le> binade y"
  then have "(2::real) powi (binade y + 1) \<le> 2 powi (binade x)"
    by (intro power_int_increasing) simp_all
  moreover have "0 < y" using x by simp
  ultimately show False
    using binade_bounds [of x] binade_bounds [of y] x by linarith
qed

lemma round_half_even_of_int [simp]: "round_half_even (of_int k) = k"
  by (simp add: round_half_even_def)

lemma round_half_even_between:
  "\<lfloor>y\<rfloor> \<le> round_half_even y \<and> round_half_even y \<le> \<lfloor>y\<rfloor> + 1"
  by (simp add: round_half_even_def Let_def)

lemma round_half_even_mono:
  assumes "x \<le> y"
  shows "round_half_even x \<le> round_half_even y"
proof (cases "\<lfloor>x\<rfloor> = \<lfloor>y\<rfloor>")
  case True
  then show ?thesis
    using assms by (auto simp: round_half_even_def Let_def)
next
  case False
  then have "\<lfloor>x\<rfloor> + 1 \<le> \<lfloor>y\<rfloor>"
    using floor_mono [OF assms] by linarith
  then show ?thesis
    using round_half_even_between [of x] round_half_even_between [of y] by linarith
qed

lemma round_half_even_ge: "of_int k \<le> y \<Longrightarrow> k \<le> round_half_even y"
  using round_half_even_mono [of "of_int k" y] by simp

lemma round_half_even_le: "y \<le> of_int k \<Longrightarrow> round_half_even y \<le> k"
  using round_half_even_mono [of y "of_int k"] by simp

lemma ulp_times: "(2::real) ^ 52 * 2 powi (e - 52) = 2 powi e"
proof -
  have "(2::real) powi (e - 52) = 2 powi e / 2 powi 52"
    by (rule power_int_diff) simp
  then show ?thesis by simp
qed

lemma ulp_times_succ: "(2::real) ^ 53 * 2 powi (e - 52) = 2 powi (e + 1)"
proof -
  have "(2::real) ^ 53 = 2 * 2 ^ 52" by simp
  then show ?thesis
    using ulp_times [of e] two_powi_succ [of e] by (simp only: mult.assoc)
qed

lemma round_double_pos:
  assumes "0 < x"
  shows "round_double x = of_int (round_half_even (x / 2 powi (binade x - 52))) * 2 powi (binade x - 52)"
  using assms by (simp add: round_double_def Let_def)

lemma significand_bounds:
  assumes "0 < x"
  shows "2 ^ 52 \<le> round_half_even (x / 2 powi (binade x - 52))"
    and "round_half_even (x / 2 powi (binade x - 52)) \<le> 2 ^ 53"
proof -
  let ?s = "(2::real) powi (binade x - 52)"
  have s: "0 < ?s" by simp
  note b = binade_bounds [OF assms]
  have "2 ^ 52 * ?s \<le> x" using b ulp_times [of "binade x"] by linarith
  then have "2 ^ 52 \<le> x / ?s" using s by (simp add: pos_le_divide_eq)
  then have "of_int (2 ^ 52) \<le> x / ?s" by simp
  then show "2 ^ 52 \<le> round_half_even (x / ?s)" by (rule round_half_even_ge)
  have "x \<le> 2 ^ 53 * ?s" using b ulp_times_succ [of "binade x"] by linarith
  then have "x / ?s \<le> 2 ^ 53" using s by (simp add: pos_divide_le_eq)
  then have "x / ?s \<le> of_int (2 ^ 53)" by simp
  then show "round_half_even (x / ?s) \<le> 2 ^ 53" by (rule round_half_even_le)
qed

lemma round_double_bounds:
  assumes "0 < x"
  shows "2 powi (binade x) \<le> round_double x" and "round_double x \<le> 2 powi (binade x + 1)"
proof -
  let ?s = "(2::real) powi (binade x - 52)"
  let ?m = "round_half_even (x / ?s)"
  have s: "0 \<le> ?s" by simp
  have "(of_int (2 ^ 52) :: real) \<le> of_int ?m"
    using significand_bounds(1) [OF assms] by (simp only: of_int_le_iff)
  then have "(2::real) ^ 52 \<le> of_int ?m" by simp
  then have "2 ^ 52 * ?s \<le> of_int ?m * ?s"
    using s by (rule mult_right_mono)
  then show "2 powi (binade x) \<le> round_double x"
    by (simp only: ulp_times round_double_pos [OF assms])
  have "(of_int ?m :: real) \<le> of_int (2 ^ 53)"
    using significand_bounds(2) [OF assms] by (simp only: of_int_le_iff)
  then have "of_int ?m \<le> (2::real) ^ 53" by simp
  then have "of_int ?m * ?s \<le> 2 ^ 53 * ?s"
    using s by (rule mult_right_mono)
  then show "round_double x \<le> 2 powi (binade x + 1)"
    by (simp only: ulp_times_succ round_double_pos [OF assms])
qed

lemma round_half_even_zero [simp]: "round_half_even 0 = 0"
  by (simp add: round_half_even_def)

lemma round_double_zero [simp]: "round_double 0 = 0"
  by (simp add: round_double_def)

lemma round_double_nonneg: "0 \<le> x \<Longrightarrow> 0 \<le> round_double x"
proof (cases "x = 0")
  case False
  assume "0 \<le> x"
  with False have "0 < x" by simp
  from round_double_bounds(1) [OF this] zero_less_power_int [of "2::real" "binade x"]
  show ?thesis by linarith
qed simp

lemma round_double_mono_pos:
  assumes "0 < x" "x \<le> y"
  shows "round_double x \<le> round_double y"
proof (cases "binade x = binade y")
  case True
  let ?s = "(2::real) powi (binade y - 52)"
  have y: "0 < y" using assms by simp
  have "x / ?s \<le> y / ?s"
    using assms(2) by (simp add: divide_right_mono)
  then have "round_half_even (x / ?s) \<le> round_half_even (y / ?s)"
    by (rule round_half_even_mono)
  then have "(of_int (round_half_even (x / ?s)) :: real) \<le> of_int (round_half_even (y / ?s))"
    by simp
  then have "of_int (round_half_even (x / ?s)) * ?s \<le> of_int (round_half_even (y / ?s)) * ?s"
    by (rule mult_right_mono) simp
  then show ?thesis
    by (simp only: round_double_pos [OF assms(1)] round_double_pos [OF y] True)
next
  case False
  have y: "0 < y" using assms by simp
  from False binade_mono [OF assms] have "binade x + 1 \<le> binade y" by simp
  then have "(2::real) powi (binade x + 1) \<le> 2 powi (binade y)"
    by (intro power_int_increasing) simp_all
  then show ?thesis
    using round_double_bounds(2) [OF assms(1)] round_double_bounds(1) [OF y] by linarith
qed

lemma round_double_mono:
  assumes "0 \<le> x" "x \<le> y"
  shows "round_double x \<le> round_double y"
proof (cases "x = 0")
  case True
  then show ?thesis
    using assms round_double_nonneg [of y] by simp
next
  case False
  then show ?thesis
    using assms by (intro round_double_mono_pos) simp_all
qed

lemma round_double_exact:
  assumes "2 powi k \<le> v" "v < 2 powi (k + 1)" "v = of_int m * 2 powi (k - 52)"
  shows "round_double v = v"
proof -
  have pos: "0 < v"
    using assms(1) zero_less_power_int [of "2::real" k] by linarith
  have b: "binade v = k"
    using assms(1,2) by (rule binade_unique)
  have q: "v / 2 powi (k - 52) = of_int m"
    using assms(3) by simp
  have "round_double v = of_int (round_half_even (v / 2 powi (k - 52))) * 2 powi (k - 52)"
    by (simp only: round_double_pos [OF pos] b)
  also have "\<dots> = of_int m * 2 powi (k - 52)"
    by (simp only: q round_half_even_of_int)
  also have "\<dots> = v"
    using assms(3) by simp
  finally show ?thesis .
qed

lemma round_double_idem:
  assumes "0 \<le> x"
  shows "round_double (round_double x) = round_double x"
proof (cases "x = 0")
  case True
  then show ?thesis by simp
next
  case False
  with assms have pos: "0 < x" by simp
  let ?e = "binade x"
  let ?m = "round_half_even (x / 2 powi (?e - 52))"
  note v = round_double_pos [OF pos]
  show ?thesis
  proof (cases "?m = 2 ^ 53")
    case True
    have eq: "round_double x = 2 powi (?e + 1)"
      unfolding v True using ulp_times_succ [of ?e] by simp
    have "round_double x = of_int (2 ^ 52) * 2 powi (?e + 1 - 52)"
      unfolding eq using ulp_times [of "?e + 1"] by simp
    moreover have "2 powi (?e + 1) \<le> round_double x"
      unfolding eq by simp
    moreover have "round_double x < 2 powi (?e + 1 + 1)"
      unfolding eq by (intro power_int_strict_increasing) simp_all
    ultimately show ?thesis
      by (intro round_double_exact [of "?e + 1" _ "2 ^ 52"])
  next
    case False
    with significand_bounds(2) [OF pos] have "?m < 2 ^ 53" by simp
    then have "(of_int ?m :: real) < 2 ^ 53"
      by (metis of_int_less_iff of_int_numeral of_int_power)
    then have "of_int ?m * 2 powi (?e - 52) < (2::real) ^ 53 * 2 powi (?e - 52)"
      by (intro mult_strict_right_mono) simp_all
    then have "round_double x < 2 powi (?e + 1)"
      by (simp only: v ulp_times_succ)
    with round_double_bounds(1) [OF pos] v show ?thesis
      by (intro round_double_exact [of ?e _ ?m])
  qed
qed

section \<open>Literals and the values of the fallback\<close>

lemma lit_0 [simp]: "lit 0 = 0"
  by (simp add: lit_def)

lemma lit_50 [simp]: "lit 50 = 50"
  by (simp add: lit_def round_double_def round_half_even_def Let_def binade.simps)

lemma lit_200 [simp]: "lit 200 = 200"
  by (simp add: lit_def round_double_def round_half_even_def Let_def binade.simps)

lemma lit_450 [simp]: "lit 450 = 450"
  by (simp add: lit_def round_double_def round_half_even_def Let_def binade.simps)

lemma lit_half: "lit 0.5 = 1 / 2"
  by (simp add: lit_def round_double_def round_half_even_def Let_def binade.simps)

lemma lit_03: "lit 0.3 = 5404319552844595 / 2 ^ 54"
  by (simp add: lit_def round_double_def round_half_even_def Let_def binade.simps)

lemma lit_11: "lit 1.1 = 4953959590107546 / 2 ^ 52"
  by (simp add: lit_def round_double_def round_half_even_def Let_def binade.simps)

lemma fallback_capacity: "fmul (lit 200) (lit 1.1) = 7740561859543041 / 2 ^ 45"
  by (simp add: lit_11 fmul_def round_double_def round_half_even_def Let_def binade.simps)

lemma fallback_capacity_2: "fadd (fmul (lit 200) (lit 0.5)) (lit 50) = 150"
  unfolding lit_half
  by (simp add: fmul_def fadd_def round_double_def round_half_even_def Let_def binade.simps)

lemma fadd_zero_200: "fadd 0 200 = 200"
  by (simp add: fadd_def round_double_def round_half_even_def Let_def binade.simps)

section \<open>The loops\<close>

lemma update_fresh: "k \<notin> fst ` set al \<Longrightarrow> AList.update k v al = al @ [(k, v)]"
  by (induction al) auto

lemma ends_simp [simp]: "ends (u, v, x) = (u, v)"
  by (simp add: ends_def)

lemma spanning_tree_loop_appends:
  "\<exists>new rng'. spanning_tree_loop G buses lines rng = (lines @ new, rng') \<and>
     map ends new = map (\<lambda>i. (i, i + 1)) buses"
proof (induction buses arbitrary: lines rng)
  case Nil
  show ?case by simp
next
  case (Cons i rest)
  obtain r rng1 where r: "rng_random G rng = (r, rng1)"
    by (cases "rng_random G rng")
  define l :: line where "l = (i, i + 1, fadd (lit 0.05) (fmul r (lit 0.45)))"
  from Cons.IH [of "lines @ [l]" rng1] obtain new rng' where
    n: "spanning_tree_loop G rest (lines @ [l]) rng1 = ((lines @ [l]) @ new, rng')"
       "map ends new = map (\<lambda>i. (i, i + 1)) rest"
    by blast
  have "spanning_tree_loop G (i # rest) lines rng = (lines @ (l # new), rng')"
    using r n(1) by (simp add: l_def)
  moreover have "map ends (l # new) = map (\<lambda>i. (i, i + 1)) (i # rest)"
    using n(2) by (simp add: l_def)
  ultimately show ?case by blast
qed

lemma numpy_spec_random:
  "numpy_spec G \<Longrightarrow> 0 \<le> fst (rng_random G rng) \<and> fst (rng_random G rng) < 1"
  by (simp add: numpy_spec_def)

lemma numpy_spec_integers:
  "numpy_spec G \<Longrightarrow> low < high \<Longrightarrow>
     \<exists>k rng'. rng_integers G rng low high = Inr (k, rng') \<and> low \<le> k \<and> k < high"
  by (simp add: numpy_spec_def)

lemma numpy_spec_integers_empty:
  "numpy_spec G \<Longrightarrow> high \<le> low \<Longrightarrow> rng_integers G rng low high = Inl ValueError"
  by (simp add: numpy_spec_def)

lemma numpy_spec_seed:
  "numpy_spec G \<Longrightarrow> 0 \<le> seed \<Longrightarrow> \<exists>rng. default_rng G seed = Inr rng"
  by (simp add: numpy_spec_def)

lemma numpy_spec_negative_seed:
  "numpy_spec G \<Longrightarrow> seed < 0 \<Longrightarrow> default_rng G seed = Inl ValueError"
  by (simp add: numpy_spec_def)

lemma extra_edges_loop_appends:
  assumes G: "numpy_spec G" and n: "2 \<le> n"
  shows "\<exists>new rng'. extra_edges_loop G n k lines rng = (Inr (lines @ new), rng') \<and>
     length new = k \<and> (\<forall>l \<in> set new. line_ok n l)"
proof (induction k arbitrary: lines rng)
  case 0
  show ?case by simp
next
  case (Suc k)
  from numpy_spec_integers [OF G, of 1 n rng] n obtain u rng1 where
    u: "rng_integers G rng 1 n = Inr (u, rng1)" "1 \<le> u" "u < n"
    by auto
  from numpy_spec_integers [OF G, of "u + 1" "n + 1" rng1] u obtain v rng2 where
    v: "rng_integers G rng1 (u + 1) (n + 1) = Inr (v, rng2)" "u + 1 \<le> v" "v < n + 1"
    by auto
  obtain r rng3 where r: "rng_random G rng2 = (r, rng3)"
    by (cases "rng_random G rng2")
  define l :: line where "l = (u, v, fadd (lit 0.05) (fmul r (lit 0.45)))"
  from Suc.IH [of "lines @ [l]" rng3] obtain new rng' where
    new: "extra_edges_loop G n k (lines @ [l]) rng3 = (Inr ((lines @ [l]) @ new), rng')"
         "length new = k" "\<forall>l \<in> set new. line_ok n l"
    by blast
  have "extra_edges_loop G n (Suc k) lines rng = (Inr (lines @ (l # new)), rng')"
    using u(1) v(1) r new(1) by (simp add: l_def)
  moreover have "line_ok n l"
    using u v by (simp add: line_ok_def l_def)
  ultimately show ?case
    using new(2,3) by (intro exI [of _ "l # new"] exI [of _ rng']) simp
qed

lemma extra_edges_loop_raises:
  assumes G: "numpy_spec G" and n: "n \<le> 1"
  shows "extra_edges_loop G n (Suc k) lines rng = (Inl ValueError, rng)"
  using numpy_spec_integers_empty [OF G, of n 1 rng] n by simp

lemma load_value_nonneg: "load_value p \<Longrightarrow> 0 \<le> p"
  by (auto simp: load_value_def fadd_def fmul_def intro!: round_double_nonneg add_nonneg_nonneg)

lemma loads_loop_appends:
  assumes G: "numpy_spec G"
  shows "distinct buses \<Longrightarrow> set buses \<inter> fst ` set loads = {} \<Longrightarrow>
    \<exists>new rng'. loads_loop G buses (loads, total_load) rng =
        ((loads @ new, foldl fadd total_load (map snd new)), rng') \<and>
      set (map fst new) \<subseteq> set buses \<and> distinct (map fst new) \<and>
      (\<forall>p \<in> set (map snd new). load_value p)"
proof (induction buses arbitrary: loads total_load rng)
  case Nil
  show ?case by simp
next
  case (Cons bus rest)
  obtain r rng1 where r: "rng_random G rng = (r, rng1)"
    by (cases "rng_random G rng")
  show ?case
  proof (cases "lit 0.3 < r")
    case False
    from Cons.prems have "distinct rest" "set rest \<inter> fst ` set loads = {}"
      by auto
    from Cons.IH [OF this, of total_load rng1] obtain new rng' where
      n: "loads_loop G rest (loads, total_load) rng1 =
            ((loads @ new, foldl fadd total_load (map snd new)), rng')"
         "set (map fst new) \<subseteq> set rest" "distinct (map fst new)"
         "\<forall>p \<in> set (map snd new). load_value p"
      by blast
    have "loads_loop G (bus # rest) (loads, total_load) rng =
            ((loads @ new, foldl fadd total_load (map snd new)), rng')"
      using r False n(1) by simp
    then show ?thesis
      using n(2-4) by (intro exI [of _ new] exI [of _ rng']) auto
  next
    case True
    obtain r' rng2 where r': "rng_random G rng1 = (r', rng2)"
      by (cases "rng_random G rng1")
    define p where "p = fadd (lit 50) (fmul r' (lit 450))"
    have "0 \<le> r' \<and> r' < 1"
      using numpy_spec_random [OF G, of rng1] r' by simp
    then have p: "load_value p"
      unfolding load_value_def p_def by blast
    have fresh: "bus \<notin> fst ` set loads"
      using Cons.prems by auto
    then have upd: "AList.update bus p loads = loads @ [(bus, p)]"
      by (rule update_fresh)
    from Cons.prems have "distinct rest" "set rest \<inter> fst ` set (loads @ [(bus, p)]) = {}"
      by auto
    from Cons.IH [OF this, of "fadd total_load p" rng2] obtain new rng' where
      n: "loads_loop G rest (loads @ [(bus, p)], fadd total_load p) rng2 =
            (((loads @ [(bus, p)]) @ new, foldl fadd (fadd total_load p) (map snd new)), rng')"
         "set (map fst new) \<subseteq> set rest" "distinct (map fst new)"
         "\<forall>p \<in> set (map snd new). load_value p"
      by blast
    have "loads_loop G (bus # rest) (loads, total_load) rng =
            ((loads @ ((bus, p) # new), foldl fadd total_load (map snd ((bus, p) # new))), rng')"
      using r r' True n(1) upd by (simp add: p_def Let_def)
    moreover have "set (map fst ((bus, p) # new)) \<subseteq> set (bus # rest)"
      using n(2) by auto
    moreover have "distinct (map fst ((bus, p) # new))"
      using n(2,3) Cons.prems(1) by auto
    moreover have "\<forall>q \<in> set (map snd ((bus, p) # new)). load_value q"
      using n(4) p by auto
    ultimately show ?thesis by blast
  qed
qed

lemma map_of_generators_loop:
  "map_of (generators_loop buses loads generators) b =
     (if b \<in> set buses then Some (fadd (fmul (dict_get loads b (lit 0)) (lit 0.5)) (lit 50))
      else map_of generators b)"
  by (induction buses arbitrary: generators) (auto simp: update_conv')

lemma keys_generators_loop:
  "fst ` set (generators_loop buses loads generators) = fst ` set generators \<union> set buses"
  by (induction buses arbitrary: generators) (auto simp: dom_update)

lemma distinct_generators_loop:
  "distinct (map fst generators) \<Longrightarrow> distinct (map fst (generators_loop buses loads generators))"
  by (induction buses arbitrary: generators) (auto simp: distinct_update)

lemma set_range_step:
  "0 < step \<Longrightarrow>
     set (range_step start stop step) = {b. start \<le> b \<and> b < stop \<and> (b - start) mod step = 0}"
proof (induction start stop step rule: range_step.induct)
  case (1 start stop step)
  show ?case
  proof (cases "start < stop")
    case False
    then show ?thesis
      by (subst range_step.simps) auto
  next
    case True
    have *: "(b - start) mod step = 0 \<longleftrightarrow> b = start \<or> (start + step \<le> b \<and> (b - (start + step)) mod step = 0)"
      if "start \<le> b" for b
    proof (cases "b = start")
      case True
      then show ?thesis by simp
    next
      case False
      have m: "(b - (start + step)) mod step = (b - start) mod step"
        by (metis diff_diff_eq minus_mod_self2)
      show ?thesis
      proof
        assume z: "(b - start) mod step = 0"
        then have "step dvd (b - start)" by auto
        moreover have "0 < b - start" using False that by simp
        ultimately have "step \<le> b - start" by (rule zdvd_imp_le)
        then show "b = start \<or> (start + step \<le> b \<and> (b - (start + step)) mod step = 0)"
          using m z by simp
      next
        assume "b = start \<or> (start + step \<le> b \<and> (b - (start + step)) mod step = 0)"
        then show "(b - start) mod step = 0"
          using False m by simp
      qed
    qed
    have "set (range_step start stop step) = insert start (set (range_step (start + step) stop step))"
      using True "1.prems" by (subst range_step.simps) simp
    also have "\<dots> = insert start {b. start + step \<le> b \<and> b < stop \<and> (b - (start + step)) mod step = 0}"
      using "1.IH" True "1.prems" by simp
    also have "\<dots> = {b. start \<le> b \<and> b < stop \<and> (b - start) mod step = 0}"
    proof (intro set_eqI iffI)
      fix b
      assume "b \<in> insert start {b. start + step \<le> b \<and> b < stop \<and> (b - (start + step)) mod step = 0}"
      then have b: "b = start \<or> (start + step \<le> b \<and> b < stop \<and> (b - (start + step)) mod step = 0)"
        by simp
      then have "start \<le> b" using "1.prems" by auto
      moreover from this b have "(b - start) mod step = 0" by (subst *) auto
      moreover have "b < stop" using b True by auto
      ultimately show "b \<in> {b. start \<le> b \<and> b < stop \<and> (b - start) mod step = 0}"
        by simp
    next
      fix b
      assume "b \<in> {b. start \<le> b \<and> b < stop \<and> (b - start) mod step = 0}"
      then have b: "start \<le> b" "b < stop" "(b - start) mod step = 0"
        by simp_all
      from b(3) have "b = start \<or> (start + step \<le> b \<and> (b - (start + step)) mod step = 0)"
        by (simp only: * [OF b(1)])
      with b(2) show "b \<in> insert start {b. start + step \<le> b \<and> b < stop \<and> (b - (start + step)) mod step = 0}"
        by auto
    qed
    finally show ?thesis .
  qed
qed

section \<open>One run of generate\_network\<close>

lemma counter_rng_spec: "numpy_spec counter_rng"
proof -
  have "low + int k mod (high - low) < high" if "low < high" for low high :: int and k :: nat
  proof -
    have "int k mod (high - low) < high - low"
      using that by simp
    then show ?thesis by linarith
  qed
  then show ?thesis
    unfolding numpy_spec_def counter_rng_def by (simp add: pos_divide_less_eq)
qed

lemma counter_rng_simps [simp]:
  "default_rng counter_rng seed = (if seed < 0 then Inl ValueError else Inr (nat seed))"
  "rng_random counter_rng k = (real (k mod 10) / 10, Suc k)"
  "rng_integers counter_rng k low high =
     (if low < high then Inr (low + int k mod (high - low), Suc k) else Inl ValueError)"
  by (simp_all add: counter_rng_def)

lemma total_of_fallback: "total_of [(2, 200)] = 200"
  by (simp add: total_of_def fadd_zero_200)

lemma generate_network_unfold:
  assumes "default_rng G seed = Inr rng0"
    and "spanning_tree_loop G [1..n - 1] [] rng0 = (tree, rng1)"
    and "extra_edges_loop G n (nat (max 1 (n div 3))) tree rng1 = (Inr lines, rng2)"
    and "loads_loop G [2..n] ([], lit 0) rng2 = ((loads0, total0), rng3)"
  shows "generate_network G n seed objs =
    (Inr (n, lines,
          generators_loop (range_step 2 (n + 1) 4) (if loads0 = [] then [(2, lit 200)] else loads0)
            [(1, fmul (if loads0 = [] then lit 200 else total0) (lit 1.1))],
          if loads0 = [] then [(2, lit 200)] else loads0),
     objs @ [rng3])"
  using assms by (simp add: generate_network_def)

lemma generate_network_run:
  assumes G: "numpy_spec G" and n: "2 \<le> n" and seed: "0 \<le> seed"
  shows "\<exists>tree extra loads rng.
    generate_network G n seed objs =
       (Inr (n, tree @ extra,
             generators_loop (range_step 2 (n + 1) 4) loads [(1, fmul (total_of loads) (lit 1.1))],
             loads),
        objs @ [rng]) \<and>
    map ends tree = map (\<lambda>i. (i, i + 1)) [1..n - 1] \<and>
    length extra = nat (max 1 (n div 3)) \<and>
    (\<forall>l \<in> set extra. line_ok n l) \<and>
    loads \<noteq> [] \<and>
    fst ` set loads \<subseteq> {2..n} \<and>
    distinct (map fst loads) \<and>
    (\<forall>p \<in> set (map snd loads). 0 \<le> p)"
proof -
  from numpy_spec_seed [OF G seed] obtain rng0 where s: "default_rng G seed = Inr rng0"
    by blast
  from spanning_tree_loop_appends [of G "[1..n - 1]" "[]" rng0] obtain tree rng1 where
    t: "spanning_tree_loop G [1..n - 1] [] rng0 = (tree, rng1)"
       "map ends tree = map (\<lambda>i. (i, i + 1)) [1..n - 1]"
    by auto
  from extra_edges_loop_appends [OF G n, of "nat (max 1 (n div 3))" tree rng1]
  obtain extra rng2 where
    e: "extra_edges_loop G n (nat (max 1 (n div 3))) tree rng1 = (Inr (tree @ extra), rng2)"
       "length extra = nat (max 1 (n div 3))" "\<forall>l \<in> set extra. line_ok n l"
    by blast
  from loads_loop_appends [OF G, of "[2..n]" "[]" "lit 0" rng2] obtain loads0 rng3 where
    l: "loads_loop G [2..n] ([], lit 0) rng2 = ((loads0, total_of loads0), rng3)"
       "set (map fst loads0) \<subseteq> {2..n}" "distinct (map fst loads0)"
       "\<forall>p \<in> set (map snd loads0). load_value p"
    by (auto simp: total_of_def)
  let ?loads = "if loads0 = [] then [(2, lit 200)] else loads0"
  have tot: "(if loads0 = [] then lit 200 else total_of loads0) = total_of ?loads"
    by (simp add: total_of_fallback)
  have f1: "generate_network G n seed objs =
       (Inr (n, tree @ extra,
             generators_loop (range_step 2 (n + 1) 4) ?loads [(1, fmul (total_of ?loads) (lit 1.1))],
             ?loads),
        objs @ [rng3])"
    using generate_network_unfold [OF s t(1) e(1) l(1), of objs] by (simp only: tot)
  have f2: "?loads \<noteq> []" by simp
  have f3: "fst ` set ?loads \<subseteq> {2..n}"
    using l(2) n by auto
  have f4: "distinct (map fst ?loads)"
    using l(3) by simp
  have f5: "\<forall>p \<in> set (map snd ?loads). 0 \<le> p"
    using l(4) load_value_nonneg by auto
  show ?thesis
    using f1 t(2) e(2) e(3) f2 f3 f4 f5
    by (intro exI [of _ tree] exI [of _ extra] exI [of _ ?loads] exI [of _ rng3] conjI)
qed

lemma generate_network_raises:
  assumes G: "numpy_spec G" and n: "n \<le> 1 \<or> seed < 0"
  shows "fst (generate_network G n seed objs) = Inl ValueError"
proof (cases "seed < 0")
  case True
  then show ?thesis
    using numpy_spec_negative_seed [OF G] by (simp add: generate_network_def)
next
  case False
  with n have n1: "n \<le> 1" by simp
  from False numpy_spec_seed [OF G, of seed] obtain rng0 where s: "default_rng G seed = Inr rng0"
    by auto
  obtain tree rng1 where t: "spanning_tree_loop G [1..n - 1] [] rng0 = (tree, rng1)"
    by (cases "spanning_tree_loop G [1..n - 1] [] rng0")
  from n1 have "n div 3 \<le> 0" by simp
  then have k: "nat (max 1 (n div 3)) = Suc 0" by simp
  show ?thesis
    using s t extra_edges_loop_raises [OF G n1, of 0 tree rng1]
    by (simp add: generate_network_def k)
qed

section \<open>The claims\<close>

text \<open>
  C1, as the code has it.  With a generator as numpy documents it, \<^verbatim>\<open>generate_network\<close>
  returns a 4-tuple (the bus count it was given, the line list, the generator map, the load
  map) for every bus count \<open>n \<ge> 2\<close> and every seed that \<^verbatim>\<open>default_rng\<close> accepts (a
  non-negative one).  For \<open>n \<le> 1\<close> the extra-edge loop still runs once, since
  \<^verbatim>\<open>max(1, n // 3) = 1\<close>, and its first draw \<^verbatim>\<open>rng.integers(1, n)\<close> has an empty range:
  the function raises \<^verbatim>\<open>ValueError\<close>, as it does for a negative seed.
\<close>

theorem generate_network_total:
  assumes "numpy_spec G"
  shows "if 2 \<le> n \<and> 0 \<le> seed
         then \<exists>lines generators loads.
                fst (generate_network G n seed objs) = Inr (n, lines, generators, loads)
         else fst (generate_network G n seed objs) = Inl ValueError"
proof (cases "2 \<le> n \<and> 0 \<le> seed")
  case True
  then have n: "2 \<le> n" and seed: "0 \<le> seed" by simp_all
  from generate_network_run [OF assms n seed, of objs] obtain tree extra loads rng where
    "generate_network G n seed objs =
       (Inr (n, tree @ extra,
             generators_loop (range_step 2 (n + 1) 4) loads [(1, fmul (total_of loads) (lit 1.1))],
             loads),
        objs @ [rng])"
    by (elim exE conjE)
  then have "\<exists>lines generators loads.
      fst (generate_network G n seed objs) = Inr (n, lines, generators, loads)"
    by simp
  with True show ?thesis by simp
next
  case False
  then have "n \<le> 1 \<or> seed < 0" by linarith
  from generate_network_raises [OF assms this, of objs] False show ?thesis by simp
qed

text \<open>C1 at 3 buses and at 1 bus, seed 42.\<close>

theorem generate_network_total_witness:
  "numpy_spec counter_rng \<and>
   (\<exists>lines generators loads.
      fst (generate_network counter_rng 3 42 []) = Inr (3, lines, generators, loads)) \<and>
   fst (generate_network counter_rng 1 42 []) = Inl ValueError"
proof -
  have "\<exists>lines generators loads.
      fst (generate_network counter_rng 3 42 []) = Inr (3, lines, generators, loads)"
    using generate_network_total [OF counter_rng_spec, of 3 42 "[]"] by simp
  moreover have "fst (generate_network counter_rng 1 42 []) = Inl ValueError"
    using generate_network_total [OF counter_rng_spec, of 1 42 "[]"] by simp
  ultimately show ?thesis
    using counter_rng_spec by (intro conjI)
qed

text \<open>
  C1 as stated (no error for any \<open>n \<ge> 1\<close> and any integer seed) fails at \<open>n = 1\<close>, and at
  seed \<open>-1\<close>.
\<close>

theorem generate_network_one_bus_counterexample:
  "fst (generate_network counter_rng 1 42 []) = Inl ValueError \<and>
   fst (generate_network counter_rng 3 (- 1) []) = Inl ValueError"
  by (simp add: generate_network_raises [OF counter_rng_spec])

text \<open>
  C5.  For every \<open>n \<ge> 2\<close> the returned line list has exactly
  \<open>(n - 1) + max 1 (n div 3)\<close> lines: the \<open>n - 1\<close> lines of the spanning tree, and after
  them \<open>max 1 (n div 3)\<close> extra edges.
\<close>

theorem generate_network_line_count:
  assumes "numpy_spec G" "2 \<le> n" "0 \<le> seed"
  shows "\<exists>lines generators loads.
           fst (generate_network G n seed objs) = Inr (n, lines, generators, loads) \<and>
           int (length lines) = (n - 1) + max 1 (n div 3) \<and>
           length (drop (nat (n - 1)) lines) = nat (max 1 (n div 3))"
proof -
  from generate_network_run [OF assms, of objs] obtain tree extra loads rng where
    r: "generate_network G n seed objs =
       (Inr (n, tree @ extra,
             generators_loop (range_step 2 (n + 1) 4) loads [(1, fmul (total_of loads) (lit 1.1))],
             loads),
        objs @ [rng])"
      "map ends tree = map (\<lambda>i. (i, i + 1)) [1..n - 1]"
      "length extra = nat (max 1 (n div 3))"
    by (elim exE conjE)
  from r(2) have "length (map ends tree) = length (map (\<lambda>i. (i, i + 1)) [1..n - 1])"
    by simp
  then have t: "length tree = nat (n - 1)"
    by simp
  have f: "fst (generate_network G n seed objs) =
      Inr (n, tree @ extra,
           generators_loop (range_step 2 (n + 1) 4) loads [(1, fmul (total_of loads) (lit 1.1))],
           loads)"
    using r(1) by simp
  have a: "int (length (tree @ extra)) = (n - 1) + max 1 (n div 3)"
    using t r(3) assms(2) by simp
  have b: "length (drop (nat (n - 1)) (tree @ extra)) = nat (max 1 (n div 3))"
    using t r(3) by simp
  from f a b show ?thesis
    by (intro exI conjI)
qed

text \<open>C5 at 7 buses, seed 42: 6 lines of the tree and 2 extra edges.\<close>

theorem generate_network_line_count_witness:
  "numpy_spec counter_rng \<and> (2::int) \<le> 7 \<and> (0::int) \<le> 42 \<and>
   (\<exists>lines generators loads.
      fst (generate_network counter_rng 7 42 []) = Inr (7, lines, generators, loads) \<and>
      int (length lines) = (7 - 1) + max 1 (7 div 3) \<and>
      length (drop (nat (7 - 1)) lines) = nat (max 1 (7 div 3)))"
proof -
  have n: "(2::int) \<le> 7" and s: "(0::int) \<le> 42" by simp_all
  show ?thesis
    using counter_rng_spec n s generate_network_line_count [OF counter_rng_spec n s, of "[]"]
    by (intro conjI)
qed

lemma sym_linked: "sym (linked lines)"
  by (auto simp: linked_def sym_def)

lemma path_connects_buses:
  assumes "\<And>i. 1 \<le> i \<Longrightarrow> i < n \<Longrightarrow> (i, i + 1) \<in> ends ` set lines"
  shows "connects_buses n lines"
proof -
  have from_1: "(1, b) \<in> (linked lines)\<^sup>*" if "1 \<le> b" "b \<le> n" for b
    using that
  proof (induction b rule: int_ge_induct)
    case base
    show ?case by simp
  next
    case (step i)
    then have "(1, i) \<in> (linked lines)\<^sup>*" by simp
    moreover have "(i, i + 1) \<in> linked lines"
      using assms [of i] step by (simp add: linked_def)
    ultimately show ?case by (rule rtrancl_into_rtrancl)
  qed
  have "(a, b) \<in> (linked lines)\<^sup>*" if "a \<in> {1..n}" "b \<in> {1..n}" for a b
  proof -
    have "(1, a) \<in> (linked lines)\<^sup>*" using that(1) by (intro from_1) simp_all
    then have "(a, 1) \<in> (linked lines)\<^sup>*"
      using sym_rtrancl [OF sym_linked] by (rule symD [rotated])
    moreover have "(1, b) \<in> (linked lines)\<^sup>*" using that(2) by (intro from_1) simp_all
    ultimately show ?thesis by (rule rtrancl_trans)
  qed
  then show ?thesis
    by (simp add: connects_buses_def)
qed

lemma tree_has_path:
  assumes "map ends tree = map (\<lambda>i. (i, i + 1)) [1..n - 1]" "1 \<le> i" "i < n"
  shows "(i, i + 1) \<in> ends ` set tree"
proof -
  have "(i, i + 1) \<in> set (map (\<lambda>i. (i, i + 1)) [1..n - 1])"
    using assms(2,3) by simp
  then have "(i, i + 1) \<in> set (map ends tree)"
    by (simp only: assms(1))
  then show ?thesis by simp
qed

lemma tree_lines_ok:
  assumes "map ends tree = map (\<lambda>i. (i, i + 1)) [1..n - 1]" "l \<in> set tree"
  shows "line_ok n l"
proof -
  have "ends l \<in> set (map ends tree)"
    using assms(2) by simp
  then have "ends l \<in> set (map (\<lambda>i. (i, i + 1)) [1..n - 1])"
    by (simp only: assms(1))
  then obtain i where "1 \<le> i" "i \<le> n - 1" "ends l = (i, i + 1)"
    by auto
  then show ?thesis
    by (simp add: line_ok_def ends_def)
qed

lemma length_tree:
  assumes "map ends tree = map (\<lambda>i. (i, i + 1)) [1..n - 1]"
  shows "length tree = nat (n - 1)"
proof -
  have "length (map ends tree) = length (map (\<lambda>i. (i, i + 1)) [1..n - 1])"
    by (simp only: assms)
  then show ?thesis by simp
qed

text \<open>
  C2.  For every \<open>n \<ge> 2\<close> the first \<open>n - 1\<close> lines returned are, in this order, the lines
  \<open>(i, i + 1)\<close> for \<open>i = 1, \<dots>, n - 1\<close>; these \<open>n - 1\<close> lines alone connect the buses
  \<open>1..n\<close>, and so does the whole line list.
\<close>

theorem generate_network_connected:
  assumes "numpy_spec G" "2 \<le> n" "0 \<le> seed"
  shows "\<exists>lines generators loads.
           fst (generate_network G n seed objs) = Inr (n, lines, generators, loads) \<and>
           map ends (take (nat (n - 1)) lines) = map (\<lambda>i. (i, i + 1)) [1..n - 1] \<and>
           connects_buses n (take (nat (n - 1)) lines) \<and>
           connects_buses n lines"
proof -
  from generate_network_run [OF assms, of objs] obtain tree extra loads rng where
    r: "generate_network G n seed objs =
       (Inr (n, tree @ extra,
             generators_loop (range_step 2 (n + 1) 4) loads [(1, fmul (total_of loads) (lit 1.1))],
             loads),
        objs @ [rng])"
      "map ends tree = map (\<lambda>i. (i, i + 1)) [1..n - 1]"
    by (elim exE conjE)
  have f: "fst (generate_network G n seed objs) =
      Inr (n, tree @ extra,
           generators_loop (range_step 2 (n + 1) 4) loads [(1, fmul (total_of loads) (lit 1.1))],
           loads)"
    using r(1) by simp
  have t: "take (nat (n - 1)) (tree @ extra) = tree"
    using length_tree [OF r(2)] by simp
  have a: "map ends (take (nat (n - 1)) (tree @ extra)) = map (\<lambda>i. (i, i + 1)) [1..n - 1]"
    using r(2) by (simp only: t)
  have "connects_buses n tree"
    using tree_has_path [OF r(2)] by (rule path_connects_buses)
  then have b: "connects_buses n (take (nat (n - 1)) (tree @ extra))"
    by (simp only: t)
  have c: "connects_buses n (tree @ extra)"
  proof (rule path_connects_buses)
    fix i assume "1 \<le> i" "i < n"
    from tree_has_path [OF r(2) this] show "(i, i + 1) \<in> ends ` set (tree @ extra)"
      by auto
  qed
  from f a b c show ?thesis
    by (intro exI conjI)
qed

text \<open>C2 at 7 buses, seed 42.\<close>

theorem generate_network_connected_witness:
  "numpy_spec counter_rng \<and> (2::int) \<le> 7 \<and> (0::int) \<le> 42 \<and>
   (\<exists>lines generators loads.
      fst (generate_network counter_rng 7 42 []) = Inr (7, lines, generators, loads) \<and>
      map ends (take (nat (7 - 1)) lines) = map (\<lambda>i. (i, i + 1)) [1..7 - 1] \<and>
      connects_buses 7 (take (nat (7 - 1)) lines) \<and>
      connects_buses 7 lines)"
proof -
  have n: "(2::int) \<le> 7" and s: "(0::int) \<le> 42" by simp_all
  show ?thesis
    using counter_rng_spec n s generate_network_connected [OF counter_rng_spec n s, of "[]"]
    by (intro conjI)
qed

text \<open>
  C7.  For every \<open>n \<ge> 2\<close> every returned line \<open>(u, v, x)\<close>, of the spanning tree or extra,
  has \<open>1 \<le> u < v \<le> n\<close>: both ends are buses of the network, the first below the second,
  and no line is a self-loop.
\<close>

theorem generate_network_lines_ordered:
  assumes "numpy_spec G" "2 \<le> n" "0 \<le> seed"
  shows "\<exists>lines generators loads.
           fst (generate_network G n seed objs) = Inr (n, lines, generators, loads) \<and>
           (\<forall>(u, v, x) \<in> set lines. 1 \<le> u \<and> u < v \<and> v \<le> n)"
proof -
  from generate_network_run [OF assms, of objs] obtain tree extra loads rng where
    r: "generate_network G n seed objs =
       (Inr (n, tree @ extra,
             generators_loop (range_step 2 (n + 1) 4) loads [(1, fmul (total_of loads) (lit 1.1))],
             loads),
        objs @ [rng])"
      "map ends tree = map (\<lambda>i. (i, i + 1)) [1..n - 1]"
      "\<forall>l \<in> set extra. line_ok n l"
    by (elim exE conjE)
  have f: "fst (generate_network G n seed objs) =
      Inr (n, tree @ extra,
           generators_loop (range_step 2 (n + 1) 4) loads [(1, fmul (total_of loads) (lit 1.1))],
           loads)"
    using r(1) by simp
  have "line_ok n l" if "l \<in> set (tree @ extra)" for l
  proof (cases "l \<in> set tree")
    case True
    then show ?thesis by (rule tree_lines_ok [OF r(2)])
  next
    case False
    with that have "l \<in> set extra" by simp
    with r(3) show ?thesis by blast
  qed
  then have a: "\<forall>(u, v, x) \<in> set (tree @ extra). 1 \<le> u \<and> u < v \<and> v \<le> n"
    unfolding line_ok_def by fastforce
  from f a show ?thesis
    by (intro exI conjI)
qed

text \<open>C7 at 7 buses, seed 42.\<close>

theorem generate_network_lines_ordered_witness:
  "numpy_spec counter_rng \<and> (2::int) \<le> 7 \<and> (0::int) \<le> 42 \<and>
   (\<exists>lines generators loads.
      fst (generate_network counter_rng 7 42 []) = Inr (7, lines, generators, loads) \<and>
      (\<forall>(u, v, x) \<in> set lines. 1 \<le> u \<and> u < v \<and> v \<le> 7))"
proof -
  have n: "(2::int) \<le> 7" and s: "(0::int) \<le> 42" by simp_all
  show ?thesis
    using counter_rng_spec n s generate_network_lines_ordered [OF counter_rng_spec n s, of "[]"]
    by (intro conjI)
qed

text \<open>
  C10.  Nothing removes a line that is already there: for \<open>n = 2\<close> the function returns
  exactly two lines and both join bus 1 to bus 2, the one of the spanning tree and the single
  extra edge, so a line list can hold parallel lines.
\<close>

theorem generate_network_two_buses:
  assumes "numpy_spec G" "0 \<le> seed"
  shows "\<exists>lines generators loads.
           fst (generate_network G 2 seed objs) = Inr (2, lines, generators, loads) \<and>
           map ends lines = [(1, 2), (1, 2)]"
proof -
  have n: "(2::int) \<le> 2" by simp
  from generate_network_run [OF assms(1) n assms(2), of objs] obtain tree extra loads rng where
    r: "generate_network G 2 seed objs =
       (Inr (2, tree @ extra,
             generators_loop (range_step 2 (2 + 1) 4) loads [(1, fmul (total_of loads) (lit 1.1))],
             loads),
        objs @ [rng])"
      "map ends tree = map (\<lambda>i. (i, i + 1)) [1..2 - 1]"
      "length extra = nat (max 1 (2 div 3))"
      "\<forall>l \<in> set extra. line_ok 2 l"
    by (elim exE conjE)
  have f: "fst (generate_network G 2 seed objs) =
      Inr (2, tree @ extra,
           generators_loop (range_step 2 (2 + 1) 4) loads [(1, fmul (total_of loads) (lit 1.1))],
           loads)"
    using r(1) by simp
  have t: "map ends tree = [(1, 2)]"
    using r(2) by simp
  from r(3) obtain l where e: "extra = [l]"
    by (cases extra) auto
  with r(4) have "line_ok 2 l" by simp
  then have "ends l = (1, 2)"
    by (auto simp: line_ok_def ends_def)
  with t e have a: "map ends (tree @ extra) = [(1, 2), (1, 2)]"
    by simp
  from f a show ?thesis
    by (intro exI conjI)
qed

text \<open>C10 at seed 42.\<close>

theorem generate_network_two_buses_witness:
  "numpy_spec counter_rng \<and> (0::int) \<le> 42 \<and>
   (\<exists>lines generators loads.
      fst (generate_network counter_rng 2 42 []) = Inr (2, lines, generators, loads) \<and>
      map ends lines = [(1, 2), (1, 2)])"
proof -
  have s: "(0::int) \<le> 42" by simp
  show ?thesis
    using counter_rng_spec s generate_network_two_buses [OF counter_rng_spec s, of "[]"]
    by (intro conjI)
qed

text \<open>
  C8.  For every \<open>n \<ge> 2\<close> the buses with a generator are bus 1 and the buses
  \<open>2, 6, 10, \<dots>\<close> up to \<open>n\<close>, each once, and the capacity at each of the latter is
  \<^verbatim>\<open>loads.get(bus, 0.0) * 0.5 + 50.0\<close>: half the load of that bus (0 when it has none)
  plus 50.
\<close>

theorem generate_network_generators:
  assumes "numpy_spec G" "2 \<le> n" "0 \<le> seed"
  shows "\<exists>lines generators loads.
           fst (generate_network G n seed objs) = Inr (n, lines, generators, loads) \<and>
           distinct (map fst generators) \<and>
           fst ` set generators = {1} \<union> {b. 2 \<le> b \<and> b \<le> n \<and> (b - 2) mod 4 = 0} \<and>
           (\<forall>b \<in> {b. 2 \<le> b \<and> b \<le> n \<and> (b - 2) mod 4 = 0}.
              map_of generators b = Some (fadd (fmul (dict_get loads b (lit 0)) (lit 0.5)) (lit 50)))"
proof -
  from generate_network_run [OF assms, of objs] obtain tree extra loads rng where
    r: "generate_network G n seed objs =
       (Inr (n, tree @ extra,
             generators_loop (range_step 2 (n + 1) 4) loads [(1, fmul (total_of loads) (lit 1.1))],
             loads),
        objs @ [rng])"
    by (elim exE conjE)
  let ?gens = "generators_loop (range_step 2 (n + 1) 4) loads [(1, fmul (total_of loads) (lit 1.1))]"
  have s: "set (range_step 2 (n + 1) 4) = {b. 2 \<le> b \<and> b \<le> n \<and> (b - 2) mod 4 = 0}"
    by (subst set_range_step) auto
  have f: "fst (generate_network G n seed objs) = Inr (n, tree @ extra, ?gens, loads)"
    using r by simp
  have a: "distinct (map fst ?gens)"
    by (rule distinct_generators_loop) simp
  have b: "fst ` set ?gens = {1} \<union> {b. 2 \<le> b \<and> b \<le> n \<and> (b - 2) mod 4 = 0}"
    by (simp add: keys_generators_loop s)
  have c: "\<forall>b \<in> {b. 2 \<le> b \<and> b \<le> n \<and> (b - 2) mod 4 = 0}.
      map_of ?gens b = Some (fadd (fmul (dict_get loads b (lit 0)) (lit 0.5)) (lit 50))"
    unfolding map_of_generators_loop s by simp
  from f a b c show ?thesis
    by (intro exI conjI)
qed

text \<open>C8 at 7 buses, seed 42: generators at the buses 1, 2 and 6.\<close>

theorem generate_network_generators_witness:
  "numpy_spec counter_rng \<and> (2::int) \<le> 7 \<and> (0::int) \<le> 42 \<and>
   (\<exists>lines generators loads.
      fst (generate_network counter_rng 7 42 []) = Inr (7, lines, generators, loads) \<and>
      distinct (map fst generators) \<and>
      fst ` set generators = {1} \<union> {b. 2 \<le> b \<and> b \<le> 7 \<and> (b - 2) mod 4 = 0} \<and>
      (\<forall>b \<in> {b. 2 \<le> b \<and> b \<le> 7 \<and> (b - 2) mod 4 = 0}.
         map_of generators b = Some (fadd (fmul (dict_get loads b (lit 0)) (lit 0.5)) (lit 50))))"
proof -
  have n: "(2::int) \<le> 7" and s: "(0::int) \<le> 42" by simp_all
  show ?thesis
    using counter_rng_spec n s generate_network_generators [OF counter_rng_spec n s, of "[]"]
    by (intro conjI)
qed

lemma total_of_rounded:
  assumes "d \<noteq> []" "\<forall>p \<in> set (map snd d). 0 \<le> p"
  shows "0 \<le> total_of d \<and> round_double (total_of d) = total_of d"
proof -
  have "0 \<le> foldl fadd t vs \<and> round_double (foldl fadd t vs) = foldl fadd t vs"
    if "vs \<noteq> []" "\<forall>p \<in> set vs. 0 \<le> p" "0 \<le> t" for vs t
    using that
  proof (induction vs arbitrary: t)
    case Nil
    then show ?case by simp
  next
    case (Cons v vs)
    have s: "0 \<le> t + v" using Cons.prems by simp
    have n: "0 \<le> fadd t v"
      unfolding fadd_def using s by (rule round_double_nonneg)
    show ?case
    proof (cases "vs = []")
      case True
      then show ?thesis
        using n round_double_idem [OF s] by (simp add: fadd_def)
    next
      case False
      then show ?thesis
        using Cons.IH [of "fadd t v"] Cons.prems n by simp
    qed
  qed
  from this [of "map snd d" "lit 0"] assms show ?thesis
    by (simp add: total_of_def)
qed

lemma one_le_lit_11: "1 \<le> lit 1.1"
  by (simp add: lit_11)

text \<open>
  C3.  For every \<open>n \<ge> 2\<close> bus 1 has a generator; its capacity is \<^verbatim>\<open>total * 1.1\<close>
  for the sum \<^verbatim>\<open>total\<close> of the returned loads (float product and float sum, as the
  source computes them), and it is not below that sum.
\<close>

theorem generate_network_slack_capacity:
  assumes "numpy_spec G" "2 \<le> n" "0 \<le> seed"
  shows "\<exists>lines generators loads.
           fst (generate_network G n seed objs) = Inr (n, lines, generators, loads) \<and>
           map_of generators 1 = Some (fmul (total_of loads) (lit 1.1)) \<and>
           total_of loads \<le> fmul (total_of loads) (lit 1.1)"
proof -
  from generate_network_run [OF assms, of objs] obtain tree extra loads rng where
    r: "generate_network G n seed objs =
       (Inr (n, tree @ extra,
             generators_loop (range_step 2 (n + 1) 4) loads [(1, fmul (total_of loads) (lit 1.1))],
             loads),
        objs @ [rng])"
       "loads \<noteq> []" "\<forall>p \<in> set (map snd loads). 0 \<le> p"
    by (elim exE conjE)
  let ?gens = "generators_loop (range_step 2 (n + 1) 4) loads [(1, fmul (total_of loads) (lit 1.1))]"
  have f: "fst (generate_network G n seed objs) = Inr (n, tree @ extra, ?gens, loads)"
    using r(1) by simp
  have "1 \<notin> set (range_step 2 (n + 1) 4)"
    by (subst set_range_step) auto
  then have a: "map_of ?gens 1 = Some (fmul (total_of loads) (lit 1.1))"
    by (simp add: map_of_generators_loop)
  from total_of_rounded [OF r(2,3)] have t: "0 \<le> total_of loads"
    and e: "round_double (total_of loads) = total_of loads"
    by simp_all
  have "total_of loads * 1 \<le> total_of loads * lit 1.1"
    using t one_le_lit_11 by (rule mult_left_mono [rotated])
  then have "round_double (total_of loads) \<le> round_double (total_of loads * lit 1.1)"
    using t by (intro round_double_mono) simp_all
  then have b: "total_of loads \<le> fmul (total_of loads) (lit 1.1)"
    by (simp only: e fmul_def)
  from f a b show ?thesis
    by (intro exI conjI)
qed

text \<open>C3 at 7 buses, seed 42.\<close>

theorem generate_network_slack_capacity_witness:
  "numpy_spec counter_rng \<and> (2::int) \<le> 7 \<and> (0::int) \<le> 42 \<and>
   (\<exists>lines generators loads.
      fst (generate_network counter_rng 7 42 []) = Inr (7, lines, generators, loads) \<and>
      map_of generators 1 = Some (fmul (total_of loads) (lit 1.1)) \<and>
      total_of loads \<le> fmul (total_of loads) (lit 1.1))"
proof -
  have n: "(2::int) \<le> 7" and s: "(0::int) \<le> 42" by simp_all
  show ?thesis
    using counter_rng_spec n s generate_network_slack_capacity [OF counter_rng_spec n s, of "[]"]
    by (intro conjI)
qed

text \<open>
  The run of 2 buses at seed 6 of the counter generator: the one draw of the load pass is 0, so
  the pass assigns no load.
\<close>

lemma counter_run_fallback:
  "default_rng counter_rng 6 = Inr 6"
  "spanning_tree_loop counter_rng [1..2 - 1] [] 6 =
     ([(1, 2, fadd (lit 0.05) (fmul (6 / 10) (lit 0.45)))], 7)"
  "extra_edges_loop counter_rng 2 (nat (max 1 (2 div 3)))
     [(1, 2, fadd (lit 0.05) (fmul (6 / 10) (lit 0.45)))] 7 =
     (Inr [(1, 2, fadd (lit 0.05) (fmul (6 / 10) (lit 0.45))),
           (1, 2, fadd (lit 0.05) (fmul (9 / 10) (lit 0.45)))], 10)"
  "loads_loop counter_rng [2..2] ([], lit 0) 10 = (([], 0), 11)"
  by (simp_all add: lit_03)

lemma fallback_capacity_value: "fmul 200 (lit 1.1) = 220 + 1 / 2 ^ 45"
  using fallback_capacity by simp

lemma map_of_generators_1:
  "map_of (generators_loop (range_step 2 stop 4) loads [(1, c)]) 1 = Some c"
proof -
  have "1 \<notin> set (range_step 2 stop 4)"
    by (subst set_range_step) auto
  then show ?thesis
    by (simp add: map_of_generators_loop)
qed

text \<open>
  C6, as the code has it.  For every \<open>n \<ge> 2\<close>: when the load pass (the loop over the buses
  \<open>2..n\<close>) leaves the load map empty, the returned load map is exactly \<open>{2: 200.0}\<close>, its
  total is 200, and the capacity at bus 1 is the float product \<^verbatim>\<open>200.0 * 1.1\<close>, which is
  \<open>220 + 2\<^sup>-\<^sup>4\<^sup>5\<close> (Python prints 220.00000000000003), not 220; when the pass assigns a
  load, the returned load map is the map of the pass, with no entry added.
\<close>

theorem generate_network_fallback:
  assumes "numpy_spec G" "2 \<le> n" "0 \<le> seed"
  shows "\<exists>rng0 tree rng1 lines rng2 loads0 total0 rng3 generators loads.
           default_rng G seed = Inr rng0 \<and>
           spanning_tree_loop G [1..n - 1] [] rng0 = (tree, rng1) \<and>
           extra_edges_loop G n (nat (max 1 (n div 3))) tree rng1 = (Inr lines, rng2) \<and>
           loads_loop G [2..n] ([], lit 0) rng2 = ((loads0, total0), rng3) \<and>
           fst (generate_network G n seed objs) = Inr (n, lines, generators, loads) \<and>
           (if loads0 = []
            then loads = [(2, 200)] \<and> total_of loads = 200 \<and>
                 map_of generators 1 = Some (220 + 1 / 2 ^ 45)
            else loads = loads0)"
proof -
  from numpy_spec_seed [OF assms(1,3)] obtain rng0 where s: "default_rng G seed = Inr rng0"
    by blast
  obtain tree rng1 where t: "spanning_tree_loop G [1..n - 1] [] rng0 = (tree, rng1)"
    by (cases "spanning_tree_loop G [1..n - 1] [] rng0")
  from extra_edges_loop_appends [OF assms(1,2), of "nat (max 1 (n div 3))" tree rng1]
  obtain lines rng2 where
    e: "extra_edges_loop G n (nat (max 1 (n div 3))) tree rng1 = (Inr lines, rng2)"
    by blast
  obtain loads0 total0 rng3 where
    l: "loads_loop G [2..n] ([], lit 0) rng2 = ((loads0, total0), rng3)"
    by (metis surj_pair)
  let ?loads = "if loads0 = [] then [(2, lit 200)] else loads0"
  let ?gens = "generators_loop (range_step 2 (n + 1) 4) ?loads
                 [(1, fmul (if loads0 = [] then lit 200 else total0) (lit 1.1))]"
  have f: "fst (generate_network G n seed objs) = Inr (n, lines, ?gens, ?loads)"
    using generate_network_unfold [OF s t e l, of objs] by simp
  have c: "if loads0 = []
      then ?loads = [(2, 200)] \<and> total_of ?loads = 200 \<and> map_of ?gens 1 = Some (220 + 1 / 2 ^ 45)
      else ?loads = loads0"
    by (simp add: total_of_fallback map_of_generators_1 fallback_capacity_value)
  from s t e l f c show ?thesis
    by (intro exI conjI)
qed

text \<open>C6 at 2 buses, seed 6, where the load pass assigns no load.\<close>

theorem generate_network_fallback_witness:
  "numpy_spec counter_rng \<and> (2::int) \<le> 2 \<and> (0::int) \<le> 6 \<and>
   loads_loop counter_rng [2..2] ([], lit 0) 10 = (([], 0), 11) \<and>
   (\<exists>lines generators.
      fst (generate_network counter_rng 2 6 []) = Inr (2, lines, generators, [(2, 200)]) \<and>
      total_of [(2, 200)] = 200 \<and>
      map_of generators 1 = Some (220 + 1 / 2 ^ 45))"
proof -
  have n: "(2::int) \<le> 2" and s: "(0::int) \<le> 6" by simp_all
  from generate_network_fallback [OF counter_rng_spec n s, of "[]"]
  obtain rng0 tree rng1 lines rng2 loads0 total0 rng3 generators loads where
    r: "default_rng counter_rng 6 = Inr rng0"
       "spanning_tree_loop counter_rng [1..2 - 1] [] rng0 = (tree, rng1)"
       "extra_edges_loop counter_rng 2 (nat (max 1 (2 div 3))) tree rng1 = (Inr lines, rng2)"
       "loads_loop counter_rng [2..2] ([], lit 0) rng2 = ((loads0, total0), rng3)"
       "fst (generate_network counter_rng 2 6 []) = Inr (2, lines, generators, loads)"
       "if loads0 = []
        then loads = [(2, 200)] \<and> total_of loads = 200 \<and>
             map_of generators 1 = Some (220 + 1 / 2 ^ 45)
        else loads = loads0"
    by (elim exE conjE)
  from r(1) have "rng0 = 6"
    by (simp only: counter_run_fallback(1) sum.inject)
  with r(2) have "tree = [(1, 2, fadd (lit 0.05) (fmul (6 / 10) (lit 0.45)))]" "rng1 = 7"
    by (simp_all only: counter_run_fallback(2) prod.inject)
  with r(3) have "rng2 = 10"
    by (simp only: counter_run_fallback(3) prod.inject)
  with r(4) have "loads0 = []"
    by (simp only: counter_run_fallback(4) prod.inject)
  with r(6) have c: "loads = [(2, 200)]" "total_of [(2, 200)] = 200"
    "map_of generators 1 = Some (220 + 1 / 2 ^ 45)"
    by (simp_all add: total_of_fallback)
  have "\<exists>lines generators.
      fst (generate_network counter_rng 2 6 []) = Inr (2, lines, generators, [(2, 200)]) \<and>
      total_of [(2, 200)] = 200 \<and>
      map_of generators 1 = Some (220 + 1 / 2 ^ 45)"
    using r(5) c by (intro exI [of _ lines] exI [of _ generators]) (simp only: simp_thms)
  then show ?thesis
    using counter_rng_spec n s counter_run_fallback(4) by (intro conjI)
qed

text \<open>
  C6 as stated (capacity 220 at bus 1 in the fallback case) fails at 2 buses, seed 6: the
  load map is \<open>{2: 200.0}\<close> and the capacity at bus 1 is not 220.
\<close>

theorem generate_network_fallback_counterexample:
  "(case fst (generate_network counter_rng 2 6 []) of
      Inl e \<Rightarrow> False
    | Inr (n_buses, lines, generators, loads) \<Rightarrow>
        loads = [(2, 200)] \<and> map_of generators 1 \<noteq> Some 220)"
proof -
  have "fst (generate_network counter_rng 2 6 []) =
      Inr (2, [(1, 2, fadd (lit 0.05) (fmul (6 / 10) (lit 0.45))),
               (1, 2, fadd (lit 0.05) (fmul (9 / 10) (lit 0.45)))],
           generators_loop (range_step 2 (2 + 1) 4) [(2, lit 200)] [(1, fmul (lit 200) (lit 1.1))],
           [(2, lit 200)])"
    using generate_network_unfold [OF counter_run_fallback, of "[]"] by simp
  then show ?thesis
    by (simp add: map_of_generators_1 fallback_capacity_value)
qed

text \<open>
  The run among the objects follows the run on the state of the one generator that
  \<^verbatim>\<open>default_rng\<close> has made.
\<close>

lemma objects_default_rng_error:
  "numpy_objects W G view \<Longrightarrow> default_rng G seed = Inl e \<Longrightarrow>
     \<exists>w'. call_default_rng W seed w = (Inl e, w') \<and> view w' = view w"
  by (simp add: numpy_objects_def)

lemma objects_default_rng:
  "numpy_objects W G view \<Longrightarrow> default_rng G seed = Inr s \<Longrightarrow>
     \<exists>r w'. call_default_rng W seed w = (Inr r, w') \<and> view w r = None \<and>
       view w' = (view w)(r \<mapsto> s)"
  by (simp add: numpy_objects_def)

lemma objects_random:
  "numpy_objects W G view \<Longrightarrow> view w r = Some s \<Longrightarrow> rng_random G s = (x, s') \<Longrightarrow>
     \<exists>w'. call_random W r w = (x, w') \<and> view w' = (view w)(r \<mapsto> s')"
  unfolding numpy_objects_def by blast

lemma objects_integers_error:
  "numpy_objects W G view \<Longrightarrow> view w r = Some s \<Longrightarrow> rng_integers G s low high = Inl e \<Longrightarrow>
     \<exists>w'. call_integers W r low high w = (Inl e, w') \<and> view w' = view w"
  unfolding numpy_objects_def by blast

lemma objects_integers:
  "numpy_objects W G view \<Longrightarrow> view w r = Some s \<Longrightarrow>
   rng_integers G s low high = Inr (k, s') \<Longrightarrow>
     \<exists>w'. call_integers W r low high w = (Inr k, w') \<and> view w' = (view w)(r \<mapsto> s')"
  unfolding numpy_objects_def by blast


lemma spanning_tree_loop_in_follows:
  assumes W: "numpy_objects W G view"
  shows "view w rng = Some s \<Longrightarrow> spanning_tree_loop G buses lines s = (lines', s') \<Longrightarrow>
    \<exists>w'. spanning_tree_loop_in W rng buses lines w = (lines', w') \<and>
      view w' = (view w)(rng \<mapsto> s')"
proof (induction buses arbitrary: lines s w)
  case Nil
  then have "lines' = lines" "s' = s" by simp_all
  with Nil show ?case
    by (simp add: map_upd_triv)
next
  case (Cons i rest)
  obtain x s1 where r: "rng_random G s = (x, s1)"
    by (cases "rng_random G s")
  from objects_random [OF W Cons.prems(1) r] obtain w1 where
    c: "call_random W rng w = (x, w1)" and v: "view w1 = (view w)(rng \<mapsto> s1)"
    by blast
  define l :: line where "l = (i, i + 1, fadd (lit 0.05) (fmul x (lit 0.45)))"
  have "spanning_tree_loop G rest (lines @ [l]) s1 = (lines', s')"
    using Cons.prems(2) r by (simp add: l_def)
  moreover have "view w1 rng = Some s1"
    using v by simp
  ultimately obtain w' where
    "spanning_tree_loop_in W rng rest (lines @ [l]) w1 = (lines', w')"
    "view w' = (view w1)(rng \<mapsto> s')"
    using Cons.IH by blast
  then have "spanning_tree_loop_in W rng (i # rest) lines w = (lines', w')"
    "view w' = (view w)(rng \<mapsto> s')"
    using c v by (simp_all add: l_def)
  then show ?case by blast
qed

lemma extra_edges_loop_in_follows:
  assumes W: "numpy_objects W G view"
  shows "view w rng = Some s \<Longrightarrow> extra_edges_loop G n k lines s = (res, s') \<Longrightarrow>
    \<exists>w'. extra_edges_loop_in W rng n k lines w = (res, w') \<and>
      view w' = (view w)(rng \<mapsto> s')"
proof (induction k arbitrary: lines s w)
  case 0
  then have "res = Inr lines" "s' = s" by simp_all
  with 0 show ?case
    by (simp add: map_upd_triv)
next
  case (Suc k)
  show ?case
  proof (cases "rng_integers G s 1 n")
    case (Inl e)
    with Suc.prems(2) have res: "res = Inl e" "s' = s" by simp_all
    from objects_integers_error [OF W Suc.prems(1) Inl] obtain w1 where
      "call_integers W rng 1 n w = (Inl e, w1)" "view w1 = view w"
      by blast
    then have "extra_edges_loop_in W rng n (Suc k) lines w = (res, w1)"
      "view w1 = (view w)(rng \<mapsto> s')"
      using res Suc.prems(1) by (simp_all add: map_upd_triv)
    then show ?thesis by blast
  next
    case (Inr p)
    obtain u s1 where p: "p = (u, s1)" by (cases p)
    from objects_integers [OF W Suc.prems(1) Inr [unfolded p]] obtain w1 where
      c1: "call_integers W rng 1 n w = (Inr u, w1)" and v1: "view w1 = (view w)(rng \<mapsto> s1)"
      by blast
    have s1: "view w1 rng = Some s1" using v1 by simp
    show ?thesis
    proof (cases "rng_integers G s1 (u + 1) (n + 1)")
      case (Inl e)
      with Suc.prems(2) Inr p have res: "res = Inl e" "s' = s1" by simp_all
      from objects_integers_error [OF W s1 Inl] obtain w2 where
        "call_integers W rng (u + 1) (n + 1) w1 = (Inl e, w2)" "view w2 = view w1"
        by blast
      then have "extra_edges_loop_in W rng n (Suc k) lines w = (res, w2)"
        "view w2 = (view w)(rng \<mapsto> s')"
        using res c1 v1 by simp_all
      then show ?thesis by blast
    next
      case (Inr q)
      obtain v s2 where q: "q = (v, s2)" by (cases q)
      from objects_integers [OF W s1 Inr [unfolded q]] obtain w2 where
        c2: "call_integers W rng (u + 1) (n + 1) w1 = (Inr v, w2)"
        and v2: "view w2 = (view w1)(rng \<mapsto> s2)"
        by blast
      have s2: "view w2 rng = Some s2" using v2 by simp
      obtain x s3 where r: "rng_random G s2 = (x, s3)"
        by (cases "rng_random G s2")
      from objects_random [OF W s2 r] obtain w3 where
        c3: "call_random W rng w2 = (x, w3)" and v3: "view w3 = (view w2)(rng \<mapsto> s3)"
        by blast
      define l :: line where "l = (u, v, fadd (lit 0.05) (fmul x (lit 0.45)))"
      have "extra_edges_loop G n k (lines @ [l]) s3 = (res, s')"
        using Suc.prems(2) \<open>rng_integers G s 1 n = Inr p\<close> p Inr q r by (simp add: l_def)
      moreover have "view w3 rng = Some s3"
        using v3 by simp
      ultimately obtain w' where
        "extra_edges_loop_in W rng n k (lines @ [l]) w3 = (res, w')"
        "view w' = (view w3)(rng \<mapsto> s')"
        using Suc.IH by blast
      then have "extra_edges_loop_in W rng n (Suc k) lines w = (res, w')"
        "view w' = (view w)(rng \<mapsto> s')"
        using c1 c2 c3 v1 v2 v3 by (simp_all add: l_def)
      then show ?thesis by blast
    qed
  qed
qed

lemma loads_loop_in_follows:
  assumes W: "numpy_objects W G view"
  shows "view w rng = Some s \<Longrightarrow> loads_loop G buses acc s = (res, s') \<Longrightarrow>
    \<exists>w'. loads_loop_in W rng buses acc w = (res, w') \<and>
      view w' = (view w)(rng \<mapsto> s')"
proof (induction buses arbitrary: acc s w)
  case Nil
  obtain loads total_load where acc: "acc = (loads, total_load)" by (cases acc)
  with Nil have "res = acc" "s' = s" by simp_all
  with Nil acc show ?case
    by (simp add: map_upd_triv)
next
  case (Cons bus rest)
  obtain loads total_load where acc: "acc = (loads, total_load)" by (cases acc)
  obtain x s1 where r: "rng_random G s = (x, s1)"
    by (cases "rng_random G s")
  from objects_random [OF W Cons.prems(1) r] obtain w1 where
    c1: "call_random W rng w = (x, w1)" and v1: "view w1 = (view w)(rng \<mapsto> s1)"
    by blast
  have s1: "view w1 rng = Some s1" using v1 by simp
  show ?case
  proof (cases "lit 0.3 < x")
    case False
    then have "loads_loop G rest acc s1 = (res, s')"
      using Cons.prems(2) r acc by simp
    with s1 obtain w' where
      "loads_loop_in W rng rest acc w1 = (res, w')" "view w' = (view w1)(rng \<mapsto> s')"
      using Cons.IH by blast
    then have "loads_loop_in W rng (bus # rest) acc w = (res, w')"
      "view w' = (view w)(rng \<mapsto> s')"
      using c1 v1 False acc by simp_all
    then show ?thesis by blast
  next
    case True
    obtain x' s2 where r': "rng_random G s1 = (x', s2)"
      by (cases "rng_random G s1")
    from objects_random [OF W s1 r'] obtain w2 where
      c2: "call_random W rng w1 = (x', w2)" and v2: "view w2 = (view w1)(rng \<mapsto> s2)"
      by blast
    have s2: "view w2 rng = Some s2" using v2 by simp
    define p where "p = fadd (lit 50) (fmul x' (lit 450))"
    have "loads_loop G rest (AList.update bus p loads, fadd total_load p) s2 = (res, s')"
      using Cons.prems(2) r r' acc True by (simp add: p_def Let_def)
    with s2 obtain w' where
      "loads_loop_in W rng rest (AList.update bus p loads, fadd total_load p) w2 = (res, w')"
      "view w' = (view w2)(rng \<mapsto> s')"
      using Cons.IH by blast
    then have "loads_loop_in W rng (bus # rest) acc w = (res, w')"
      "view w' = (view w)(rng \<mapsto> s')"
      using c1 c2 v1 v2 True acc by (simp_all add: p_def Let_def)
    then show ?thesis by blast
  qed
qed


lemma generate_network_in_follows:
  assumes W: "numpy_objects W G view"
  shows "\<exists>w'. generate_network_in W n seed w = (fst (generate_network G n seed objs), w') \<and>
    (\<forall>r s. view w r = Some s \<longrightarrow> view w' r = Some s)"
proof (cases "default_rng G seed")
  case (Inl e)
  from objects_default_rng_error [OF W Inl, of w] obtain w' where
    "call_default_rng W seed w = (Inl e, w')" "view w' = view w"
    by blast
  then have "generate_network_in W n seed w = (fst (generate_network G n seed objs), w')"
    "\<forall>r s. view w r = Some s \<longrightarrow> view w' r = Some s"
    using Inl by (simp_all add: generate_network_in_def generate_network_def)
  then show ?thesis by blast
next
  case (Inr s0)
  from objects_default_rng [OF W Inr, of w] obtain rng w0 where
    c0: "call_default_rng W seed w = (Inr rng, w0)" and new: "view w rng = None"
    and v0: "view w0 = (view w)(rng \<mapsto> s0)"
    by blast
  have kept: "\<forall>r s. view w r = Some s \<longrightarrow> ((view w0)(rng \<mapsto> s')) r = Some s" for s'
    using new v0 by auto
  obtain tree s1 where t: "spanning_tree_loop G [1..n - 1] [] s0 = (tree, s1)"
    by (cases "spanning_tree_loop G [1..n - 1] [] s0")
  have "view w0 rng = Some s0" using v0 by simp
  from spanning_tree_loop_in_follows [OF W this t] obtain w1 where
    c1: "spanning_tree_loop_in W rng [1..n - 1] [] w0 = (tree, w1)"
    and v1: "view w1 = (view w0)(rng \<mapsto> s1)"
    by blast
  obtain res s2 where
    e: "extra_edges_loop G n (nat (max 1 (n div 3))) tree s1 = (res, s2)"
    by (cases "extra_edges_loop G n (nat (max 1 (n div 3))) tree s1")
  have "view w1 rng = Some s1" using v1 by simp
  from extra_edges_loop_in_follows [OF W this e] obtain w2 where
    c2: "extra_edges_loop_in W rng n (nat (max 1 (n div 3))) tree w1 = (res, w2)"
    and v2: "view w2 = (view w1)(rng \<mapsto> s2)"
    by blast
  have v2': "view w2 = (view w0)(rng \<mapsto> s2)"
    using v1 v2 by simp
  show ?thesis
  proof (cases res)
    case (Inl e')
    have "generate_network_in W n seed w = (fst (generate_network G n seed objs), w2)"
      using Inr c0 t c1 e c2 Inl by (simp add: generate_network_in_def generate_network_def)
    moreover have "\<forall>r s. view w r = Some s \<longrightarrow> view w2 r = Some s"
      unfolding v2' by (rule kept)
    ultimately show ?thesis by blast
  next
    case (Inr lines)
    obtain loads0 total0 s3 where
      l: "loads_loop G [2..n] ([], lit 0) s2 = ((loads0, total0), s3)"
      by (metis surj_pair)
    have "view w2 rng = Some s2" using v2 by simp
    from loads_loop_in_follows [OF W this l] obtain w3 where
      c3: "loads_loop_in W rng [2..n] ([], lit 0) w2 = ((loads0, total0), w3)"
      and v3: "view w3 = (view w2)(rng \<mapsto> s3)"
      by blast
    have v3': "view w3 = (view w0)(rng \<mapsto> s3)"
      using v2' v3 by simp
    have "generate_network_in W n seed w = (fst (generate_network G n seed objs), w3)"
      using \<open>default_rng G seed = Inr s0\<close> c0 t c1 e c2 Inr l c3
      by (simp add: generate_network_in_def generate_network_def)
    moreover have "\<forall>r s. view w r = Some s \<longrightarrow> view w3 r = Some s"
      unfolding v3' by (rule kept)
    ultimately show ?thesis by blast
  qed
qed

text \<open>The list heap meets \<open>numpy_objects\<close>.\<close>

lemma heap_view_update:
  "r < length heap \<Longrightarrow> heap_view (heap[r := s]) = (heap_view heap)(r \<mapsto> s)"
  by (auto simp: heap_view_def fun_eq_iff)

lemma heap_view_append:
  "heap_view (heap @ [s]) = (heap_view heap)(length heap \<mapsto> s)"
  by (auto simp: heap_view_def fun_eq_iff nth_append)

lemma heap_view_Some: "heap_view heap r = Some s \<Longrightarrow> r < length heap \<and> heap ! r = s"
  by (simp add: heap_view_def split: if_splits)

lemma heap_objects: "numpy_objects (heap_calls G) G heap_view"
  unfolding numpy_objects_def
proof (intro conjI allI impI)
  fix seed heap e
  assume "default_rng G seed = Inl e"
  then show "\<exists>w'. call_default_rng (heap_calls G) seed heap = (Inl e, w') \<and>
      heap_view w' = heap_view heap"
    by (simp add: heap_calls_def)
next
  fix seed heap s
  assume "default_rng G seed = Inr s"
  then show "\<exists>r w'. call_default_rng (heap_calls G) seed heap = (Inr r, w') \<and>
      heap_view heap r = None \<and> heap_view w' = (heap_view heap)(r \<mapsto> s)"
    by (simp add: heap_calls_def heap_view_append) (simp add: heap_view_def)
next
  fix r heap s x s'
  assume "heap_view heap r = Some s \<and> rng_random G s = (x, s')"
  then show "\<exists>w'. call_random (heap_calls G) r heap = (x, w') \<and>
      heap_view w' = (heap_view heap)(r \<mapsto> s')"
    using heap_view_Some [of heap r s] by (simp add: heap_calls_def heap_view_update)
next
  fix r heap s low high e
  assume "heap_view heap r = Some s \<and> rng_integers G s low high = Inl e"
  then show "\<exists>w'. call_integers (heap_calls G) r low high heap = (Inl e, w') \<and>
      heap_view w' = heap_view heap"
    using heap_view_Some [of heap r s] by (simp add: heap_calls_def)
next
  fix r heap s low high k s'
  assume "heap_view heap r = Some s \<and> rng_integers G s low high = Inr (k, s')"
  then show "\<exists>w'. call_integers (heap_calls G) r low high heap = (Inr k, w') \<and>
      heap_view w' = (heap_view heap)(r \<mapsto> s')"
    using heap_view_Some [of heap r s] by (simp add: heap_calls_def heap_view_update)
qed

text \<open>On that heap a draw from an object that exists changes it: the state 7 becomes 8.\<close>

lemma call_random_changes_object:
  "snd (call_random (heap_calls counter_rng) 0 [7]) = [8]"
  by (simp add: heap_calls_def)

text \<open>
  C4.  With generator objects as numpy documents them, two calls of \<^verbatim>\<open>generate_network\<close>
  with the same bus count and the same seed give the same result (the same bus count, lines in
  the same order, generator map and load map, or the same error), whatever the states \<open>w1\<close>
  and \<open>w2\<close> of the interpreter they start in; and a call changes no generator object that
  existed before it, numpy's global generator among them: every draw is from the object that
  the call itself has made.
\<close>

theorem generate_network_in_pure:
  assumes "numpy_objects W G view"
  shows "fst (generate_network_in W n seed w1) = fst (generate_network_in W n seed w2) \<and>
    (\<forall>r s. view w1 r = Some s \<longrightarrow> view (snd (generate_network_in W n seed w1)) r = Some s)"
proof -
  from generate_network_in_follows [OF assms, of n seed w1 "[]"] obtain w1' where
    a: "generate_network_in W n seed w1 = (fst (generate_network G n seed []), w1')"
       "\<forall>r s. view w1 r = Some s \<longrightarrow> view w1' r = Some s"
    by blast
  from generate_network_in_follows [OF assms, of n seed w2 "[]"] obtain w2' where
    b: "generate_network_in W n seed w2 = (fst (generate_network G n seed []), w2')"
    by blast
  from a b show ?thesis by simp
qed

text \<open>
  C4 on the list heap: 3 buses at seed 42, called with one generator object in state 7 and
  called with two objects in the states 8 and 9.
\<close>

theorem generate_network_in_pure_witness:
  "numpy_objects (heap_calls counter_rng) counter_rng heap_view \<and>
   fst (generate_network_in (heap_calls counter_rng) 3 42 [7]) =
     fst (generate_network_in (heap_calls counter_rng) 3 42 [8, 9]) \<and>
   heap_view [7::nat] 0 = Some 7 \<and>
   heap_view (snd (generate_network_in (heap_calls counter_rng) 3 42 [7])) 0 = Some 7"
proof -
  have h: "numpy_objects (heap_calls counter_rng) counter_rng heap_view"
    by (rule heap_objects)
  have v: "heap_view [7] 0 = Some (7::nat)"
    by (simp add: heap_view_def)
  note p = generate_network_in_pure [OF h, of 3 42 "[7]" "[8, 9]"]
  from p have "heap_view (snd (generate_network_in (heap_calls counter_rng) 3 42 [7])) 0 = Some 7"
    using v by blast
  with h p [THEN conjunct1] v show ?thesis
    by (intro conjI)
qed

section \<open>The CSV file of the benchmark\<close>

lemma time_median_loop_measured:
  "time_median_loop clock runs timings k = (timings @ measured clock k runs, k + 2 * runs)"
  by (induction runs arbitrary: timings k) (simp_all add: perf_counter_def)

lemma measured_nonempty: "0 < runs \<Longrightarrow> measured clock k runs \<noteq> []"
  by (cases runs) simp_all

lemma time_median_returns:
  assumes "0 < n_runs"
  shows "time_median clock n_runs k =
    (Inr (median_sorted (sort (measured clock k (nat n_runs))), min_list (measured clock k (nat n_runs))),
     k + 2 * nat n_runs)"
proof -
  have "measured clock k (nat n_runs) \<noteq> []"
    using assms by (intro measured_nonempty) simp
  moreover from this have "sort (measured clock k (nat n_runs)) \<noteq> []"
    by (metis length_sort length_0_conv)
  ultimately show ?thesis
    by (simp add: time_median_def time_median_loop_measured median_def py_min_def Let_def)
qed

lemma generate_network_returns:
  assumes "numpy_spec G" "2 \<le> n" "0 \<le> seed"
  shows "\<exists>lines generators loads objs'.
    generate_network G n seed objs = (Inr (n, lines, generators, loads), objs')"
proof -
  from generate_network_run [OF assms, of objs] obtain tree extra loads rng where
    "generate_network G n seed objs =
       (Inr (n, tree @ extra,
             generators_loop (range_step 2 (n + 1) 4) loads [(1, fmul (total_of loads) (lit 1.1))],
             loads),
        objs @ [rng])"
    by (elim exE conjE)
  then show ?thesis by blast
qed

lemma benchmark_loop_results:
  assumes G: "numpy_spec G" and runs: "\<forall>n. 0 < runs_of n"
  shows "\<forall>n \<in> set sizes. 2 \<le> n \<Longrightarrow>
    \<exists>objs'. benchmark_loop G clock runs_of sizes results (k, objs) =
      (Inr (fst (expected_results clock runs_of sizes results k)),
       snd (expected_results clock runs_of sizes results k), objs')"
proof (induction sizes arbitrary: results k objs)
  case Nil
  show ?case by simp
next
  case (Cons n rest)
  then have n: "2 \<le> n" by simp
  from generate_network_returns [OF G n, of 42 objs] obtain lines generators loads objs1 where
    g: "generate_network G n 42 objs = (Inr (n, lines, generators, loads), objs1)"
    by auto
  let ?results = "AList.update n (median_ms (measured clock k (nat (runs_of n)))) results"
  from Cons.IH [of ?results "k + 2 * nat (runs_of n)" objs1] Cons.prems obtain objs' where
    "benchmark_loop G clock runs_of rest ?results (k + 2 * nat (runs_of n), objs1) =
      (Inr (fst (expected_results clock runs_of rest ?results (k + 2 * nat (runs_of n)))),
       snd (expected_results clock runs_of rest ?results (k + 2 * nat (runs_of n))), objs')"
    by auto
  then have "benchmark_loop G clock runs_of (n # rest) results (k, objs) =
      (Inr (fst (expected_results clock runs_of (n # rest) results k)),
       snd (expected_results clock runs_of (n # rest) results k), objs')"
    using g time_median_returns [of "runs_of n" clock k] runs by (simp add: median_ms_def)
  then show ?case by blast
qed


lemma expected_dc:
  "expected_results clock dc_n_runs DC_SIZES [] 0 =
     ([(3, median_ms (measured clock 0 50)),
       (10, median_ms (measured clock 100 50)),
       (50, median_ms (measured clock 200 50)),
       (100, median_ms (measured clock 300 50)),
       (500, median_ms (measured clock 400 10)),
       (1000, median_ms (measured clock 420 3)),
       (2000, median_ms (measured clock 426 3))], 432)"
  by (simp add: DC_SIZES_def dc_n_runs_def)

lemma expected_lopf:
  "expected_results clock lopf_n_runs LOPF_SIZES [] 432 =
     ([(3, median_ms (measured clock 432 10)),
       (10, median_ms (measured clock 452 10)),
       (50, median_ms (measured clock 472 10)),
       (100, median_ms (measured clock 492 5)),
       (500, median_ms (measured clock 502 3))], 508)"
  by (simp add: LOPF_SIZES_def lopf_n_runs_def)

text \<open>
  C9.  With a generator as numpy documents it, the script gives the CSV writer the header row
  \<open>module, n_buses, time_ms\<close> and then one row per module and size: the seven sizes of
  \<^verbatim>\<open>DC_SIZES\<close> in order under \<open>DC_PF\<close>, then the five of \<^verbatim>\<open>LOPF_SIZES\<close> in order under
  \<open>LOPF\<close>.  The time of a row is the median of the times measured by the runs of that size
  (50, 10, 5 or 3 runs, two clock readings each), multiplied by 1000.
\<close>

theorem benchmark_csv:
  assumes "numpy_spec G"
  shows "benchmark G clock objs = Inr
    [[Text ''module'', Text ''n_buses'', Text ''time_ms''],
     [Text ''DC_PF'', Whole 3, Number (median_ms (measured clock 0 50))],
     [Text ''DC_PF'', Whole 10, Number (median_ms (measured clock 100 50))],
     [Text ''DC_PF'', Whole 50, Number (median_ms (measured clock 200 50))],
     [Text ''DC_PF'', Whole 100, Number (median_ms (measured clock 300 50))],
     [Text ''DC_PF'', Whole 500, Number (median_ms (measured clock 400 10))],
     [Text ''DC_PF'', Whole 1000, Number (median_ms (measured clock 420 3))],
     [Text ''DC_PF'', Whole 2000, Number (median_ms (measured clock 426 3))],
     [Text ''LOPF'', Whole 3, Number (median_ms (measured clock 432 10))],
     [Text ''LOPF'', Whole 10, Number (median_ms (measured clock 452 10))],
     [Text ''LOPF'', Whole 50, Number (median_ms (measured clock 472 10))],
     [Text ''LOPF'', Whole 100, Number (median_ms (measured clock 492 5))],
     [Text ''LOPF'', Whole 500, Number (median_ms (measured clock 502 3))]]"
proof -
  have dc_runs: "\<forall>n. 0 < dc_n_runs n" and lopf_runs: "\<forall>n. 0 < lopf_n_runs n"
    by (simp_all add: dc_n_runs_def lopf_n_runs_def)
  have "\<forall>n \<in> set DC_SIZES. 2 \<le> n"
    by (simp add: DC_SIZES_def)
  from benchmark_loop_results [OF assms dc_runs this, where clock = clock and results = "[]" and k = 0 and objs = objs] obtain objs1 where
    dc: "benchmark_loop G clock dc_n_runs DC_SIZES [] (0, objs) =
      (Inr (fst (expected_results clock dc_n_runs DC_SIZES [] 0)), 432, objs1)"
    by (auto simp: expected_dc)
  have "\<forall>n \<in> set LOPF_SIZES. 2 \<le> n"
    by (simp add: LOPF_SIZES_def)
  from benchmark_loop_results [OF assms lopf_runs this, where clock = clock and results = "[]" and k = 432 and objs = objs1] obtain objs2 where
    lopf: "benchmark_loop G clock lopf_n_runs LOPF_SIZES [] (432, objs1) =
      (Inr (fst (expected_results clock lopf_n_runs LOPF_SIZES [] 432)), 508, objs2)"
    by (auto simp: expected_lopf)
  have rows_dc: "write_rows ''DC_PF'' DC_SIZES (fst (expected_results clock dc_n_runs DC_SIZES [] 0))
      [[Text ''module'', Text ''n_buses'', Text ''time_ms'']] = Inr
    [[Text ''module'', Text ''n_buses'', Text ''time_ms''],
     [Text ''DC_PF'', Whole 3, Number (median_ms (measured clock 0 50))],
     [Text ''DC_PF'', Whole 10, Number (median_ms (measured clock 100 50))],
     [Text ''DC_PF'', Whole 50, Number (median_ms (measured clock 200 50))],
     [Text ''DC_PF'', Whole 100, Number (median_ms (measured clock 300 50))],
     [Text ''DC_PF'', Whole 500, Number (median_ms (measured clock 400 10))],
     [Text ''DC_PF'', Whole 1000, Number (median_ms (measured clock 420 3))],
     [Text ''DC_PF'', Whole 2000, Number (median_ms (measured clock 426 3))]]"
    unfolding expected_dc by (simp add: DC_SIZES_def)
  show ?thesis
    unfolding benchmark_def dc lopf prod.case sum.case rows_dc
    unfolding expected_lopf by (simp add: LOPF_SIZES_def)
qed

text \<open>C9 for the counter generator and a clock whose \<open>k\<close>-th reading is \<open>k\<close>.\<close>

theorem benchmark_csv_witness:
  "numpy_spec counter_rng \<and>
   benchmark counter_rng real [] = Inr
    [[Text ''module'', Text ''n_buses'', Text ''time_ms''],
     [Text ''DC_PF'', Whole 3, Number (median_ms (measured real 0 50))],
     [Text ''DC_PF'', Whole 10, Number (median_ms (measured real 100 50))],
     [Text ''DC_PF'', Whole 50, Number (median_ms (measured real 200 50))],
     [Text ''DC_PF'', Whole 100, Number (median_ms (measured real 300 50))],
     [Text ''DC_PF'', Whole 500, Number (median_ms (measured real 400 10))],
     [Text ''DC_PF'', Whole 1000, Number (median_ms (measured real 420 3))],
     [Text ''DC_PF'', Whole 2000, Number (median_ms (measured real 426 3))],
     [Text ''LOPF'', Whole 3, Number (median_ms (measured real 432 10))],
     [Text ''LOPF'', Whole 10, Number (median_ms (measured real 452 10))],
     [Text ''LOPF'', Whole 50, Number (median_ms (measured real 472 10))],
     [Text ''LOPF'', Whole 100, Number (median_ms (measured real 492 5))],
     [Text ''LOPF'', Whole 500, Number (median_ms (measured real 502 3))]]"
  using counter_rng_spec benchmark_csv [OF counter_rng_spec, of real "[]"]
  by (intro conjI)

end
